theory Spec2Isabelle
  imports Complex_Main "HOL-Library.Word"
begin

section \<open>Platform values used by the audio code\<close>

text \<open>
  The repository is TypeScript running in a browser.  Its audio core is
  \<^verbatim>\<open>src/services/audioUtils.ts\<close> (\<^verbatim>\<open>decodeAudioData\<close>, \<^verbatim>\<open>bufferToWav\<close>) and the playback
  handlers of \<^verbatim>\<open>src/App.tsx\<close> (\<^verbatim>\<open>stopSource\<close>, \<^verbatim>\<open>playAudio\<close>, \<^verbatim>\<open>handlePause\<close>,
  \<^verbatim>\<open>handleSeek\<close>).  The functions below follow those sources statement by statement.

  A JavaScript number is modelled by \<open>number\<close>: a real, an infinity or NaN.  The
  arithmetic the codec performs on samples is exact on every value a \<^verbatim>\<open>Float32Array\<close>
  can hold (a 24-bit significand times 32767 or 32768 fits a double, and a 16-bit
  integer divided by 32768 fits a float), so reals describe it without rounding.
  Bytes are 8-bit words; multi-byte integers are written with their wrap-around
  spelled out.  Exceptions thrown by the platform are values of \<open>error\<close>.
\<close>

datatype error = RangeError | NotSupportedError

type_synonym u8 = "8 word"

datatype number = Fin real | PosInf | NegInf | NaN

text \<open>\<^verbatim>\<open>Math.min\<close> and \<^verbatim>\<open>Math.max\<close>: NaN if either argument is NaN.\<close>

fun Math_min :: "number \<Rightarrow> number \<Rightarrow> number" where
  "Math_min NaN y = NaN"
| "Math_min x NaN = NaN"
| "Math_min NegInf y = NegInf"
| "Math_min x NegInf = NegInf"
| "Math_min PosInf y = y"
| "Math_min x PosInf = x"
| "Math_min (Fin a) (Fin b) = Fin (min a b)"

fun Math_max :: "number \<Rightarrow> number \<Rightarrow> number" where
  "Math_max NaN y = NaN"
| "Math_max x NaN = NaN"
| "Math_max PosInf y = PosInf"
| "Math_max x PosInf = PosInf"
| "Math_max NegInf y = y"
| "Math_max x NegInf = x"
| "Math_max (Fin a) (Fin b) = Fin (max a b)"

text \<open>
  \<^verbatim>\<open>x | 0\<close> is ECMAScript's ToInt32: NaN and the infinities become 0, a finite value is
  truncated towards zero and wrapped into the signed 32-bit range.
\<close>

definition ToInt32 :: "number \<Rightarrow> int" where
  "ToInt32 x =
     (case x of
        Fin r \<Rightarrow>
          (let n = (if r < 0 then \<lceil>r\<rceil> else \<lfloor>r\<rfloor>);
               m = n mod 2 ^ 32
           in if 2 ^ 31 \<le> m then m - 2 ^ 32 else m)
      | PosInf \<Rightarrow> 0
      | NegInf \<Rightarrow> 0
      | NaN \<Rightarrow> 0)"

subsection \<open>AudioBuffer\<close>

text \<open>
  The Web Audio \<^verbatim>\<open>AudioBuffer\<close>: \<^verbatim>\<open>sampleRate\<close>, \<^verbatim>\<open>length\<close> (in frames) and one
  \<^verbatim>\<open>Float32Array\<close> per channel.  \<^verbatim>\<open>numberOfChannels\<close> and \<^verbatim>\<open>duration\<close> are the derived
  attributes of the platform object.
\<close>

record AudioBuffer =
  sampleRate :: nat
  length_frames :: nat
  channelData :: "number list list"

definition numberOfChannels :: "AudioBuffer \<Rightarrow> nat" where
  "numberOfChannels buffer = length (channelData buffer)"

definition duration :: "AudioBuffer \<Rightarrow> real" where
  "duration buffer = real (length_frames buffer) / real (sampleRate buffer)"

definition getChannelData :: "AudioBuffer \<Rightarrow> nat \<Rightarrow> number list" where
  "getChannelData buffer channel = channelData buffer ! channel"

text \<open>
  Reading a typed array past its end yields \<^verbatim>\<open>undefined\<close>, which arithmetic turns into
  NaN; writing past its end is ignored, which is what \<open>xs[i := v]\<close> does.
\<close>

definition typed_get :: "number list \<Rightarrow> nat \<Rightarrow> number" where
  "typed_get arr i = (if i < length arr then arr ! i else NaN)"

text \<open>
  The \<^verbatim>\<open>AudioContext\<close>, as far as \<^verbatim>\<open>createBuffer\<close> depends on it: the limits of the
  implementation behind it.  The Web Audio API leaves them to the implementation and
  requires that at least 32 channels and the sample rates from 8000 Hz to 96000 Hz are
  supported.
\<close>

record AudioContext =
  maxChannels :: nat
  minSampleRate :: nat
  maxSampleRate :: nat

text \<open>
  \<^verbatim>\<open>ctx.createBuffer(numberOfChannels, length, sampleRate)\<close>.  The length argument is an
  \<^verbatim>\<open>unsigned long\<close>: a fractional number is truncated (a length of \<open>2^32\<close> frames or
  more would wrap; no byte sequence is that long).  The Web Audio API throws
  NotSupportedError when an argument is zero or outside its range: a channel count of
  zero or above the implementation's limit, a length of zero, a sample rate of zero or
  outside the range the implementation supports.
\<close>

definition createBuffer :: "AudioContext \<Rightarrow> nat \<Rightarrow> real \<Rightarrow> nat \<Rightarrow> error + AudioBuffer" where
  "createBuffer ctx numChannels len rate =
     (let n = nat \<lfloor>len\<rfloor> in
      if numChannels = 0 \<or> maxChannels ctx < numChannels \<or> n = 0 \<or>
         rate = 0 \<or> rate < minSampleRate ctx \<or> maxSampleRate ctx < rate
      then Inl NotSupportedError
      else Inr \<lparr>sampleRate = rate, length_frames = n,
                channelData = replicate numChannels (replicate n (Fin 0))\<rparr>)"

subsection \<open>DataView\<close>

text \<open>
  A \<^verbatim>\<open>DataView\<close> over a byte buffer.  Every accessor throws RangeError when the
  accessed bytes do not lie inside the view.  \<open>le_bytes k n\<close> are the \<open>k\<close> low bytes of
  \<open>n\<close>, least significant first; \<open>store\<close> overwrites the bytes at an offset.
\<close>

type_synonym DataView = "u8 list"

fun le_bytes :: "nat \<Rightarrow> nat \<Rightarrow> u8 list" where
  "le_bytes 0 n = []"
| "le_bytes (Suc k) n = of_nat (n mod 256) # le_bytes k (n div 256)"

definition store :: "DataView \<Rightarrow> nat \<Rightarrow> u8 list \<Rightarrow> DataView" where
  "store view byteOffset bs = take byteOffset view @ bs @ drop (byteOffset + length bs) view"

definition setUint8 :: "DataView \<Rightarrow> nat \<Rightarrow> nat \<Rightarrow> error + DataView" where
  "setUint8 view byteOffset v =
     (if byteOffset + 1 \<le> length view then Inr (store view byteOffset (le_bytes 1 v))
      else Inl RangeError)"

definition setUint16 :: "DataView \<Rightarrow> nat \<Rightarrow> nat \<Rightarrow> bool \<Rightarrow> error + DataView" where
  "setUint16 view byteOffset v littleEndian =
     (if byteOffset + 2 \<le> length view then
        Inr (store view byteOffset (if littleEndian then le_bytes 2 v else rev (le_bytes 2 v)))
      else Inl RangeError)"

definition setUint32 :: "DataView \<Rightarrow> nat \<Rightarrow> nat \<Rightarrow> bool \<Rightarrow> error + DataView" where
  "setUint32 view byteOffset v littleEndian =
     (if byteOffset + 4 \<le> length view then
        Inr (store view byteOffset (if littleEndian then le_bytes 4 v else rev (le_bytes 4 v)))
      else Inl RangeError)"

text \<open>\<^verbatim>\<open>setInt16\<close> stores its argument modulo \<open>2^16\<close> (ToInt16).\<close>

definition setInt16 :: "DataView \<Rightarrow> nat \<Rightarrow> int \<Rightarrow> bool \<Rightarrow> error + DataView" where
  "setInt16 view byteOffset v littleEndian =
     setUint16 view byteOffset (nat (v mod 65536)) littleEndian"

definition getInt16 :: "DataView \<Rightarrow> nat \<Rightarrow> bool \<Rightarrow> error + int" where
  "getInt16 view byteOffset littleEndian =
     (if byteOffset + 2 \<le> length view then
        (let b0 = unat (view ! byteOffset);
             b1 = unat (view ! (byteOffset + 1));
             u = (if littleEndian then b0 + 256 * b1 else b1 + 256 * b0)
         in Inr (if u < 32768 then int u else int u - 65536))
      else Inl RangeError)"

section \<open>The PCM decoder: decodeAudioData\<close>

text \<open>
  The inner loop \<^verbatim>\<open>for (let i = 0; i < frameCount; i++)\<close> of one channel.
  \<open>frameCount\<close> is the quotient \<^verbatim>\<open>data.byteLength / 2 / numChannels\<close> as the source
  computes it, a number that need not be whole.
\<close>

function decode_frames ::
  "DataView \<Rightarrow> nat \<Rightarrow> real \<Rightarrow> nat \<Rightarrow> number list \<Rightarrow> nat \<Rightarrow> error + number list" where
  "decode_frames dataView numChannels frameCount channel chanData i =
     (if real i < frameCount then
        (let byteIndex = (i * numChannels + channel) * 2 in
         case getInt16 dataView byteIndex True of
           Inl e \<Rightarrow> Inl e
         | Inr int16 \<Rightarrow>
             decode_frames dataView numChannels frameCount channel
               (chanData[i := Fin (real_of_int int16 / 32768)]) (i + 1))
      else Inr chanData)"
  by pat_completeness auto
termination
  by (relation "measure (\<lambda>(dataView, numChannels, frameCount, channel, chanData, i).
        nat \<lceil>frameCount\<rceil> - i)") (auto, linarith)

text \<open>The outer loop \<^verbatim>\<open>for (let channel = 0; channel < numChannels; channel++)\<close>.\<close>

function decode_channels ::
  "DataView \<Rightarrow> nat \<Rightarrow> real \<Rightarrow> number list list \<Rightarrow> nat \<Rightarrow> error + number list list" where
  "decode_channels dataView numChannels frameCount chans channel =
     (if channel < numChannels then
        (case decode_frames dataView numChannels frameCount channel (chans ! channel) 0 of
           Inl e \<Rightarrow> Inl e
         | Inr chanData \<Rightarrow>
             decode_channels dataView numChannels frameCount
               (chans[channel := chanData]) (channel + 1))
      else Inr chans)"
  by pat_completeness auto
termination
  by (relation "measure (\<lambda>(dataView, numChannels, frameCount, chans, channel).
        numChannels - channel)") auto

text \<open>
  \<^verbatim>\<open>decodeAudioData(data, ctx, sampleRate, numChannels)\<close>.  The function is \<^verbatim>\<open>async\<close>: an
  error is the rejection of the promise it returns.
\<close>

definition decodeAudioData ::
  "u8 list \<Rightarrow> AudioContext \<Rightarrow> nat \<Rightarrow> nat \<Rightarrow> error + AudioBuffer" where
  "decodeAudioData data0 ctx rate numChannels =
     (let data = (if length data0 mod 2 \<noteq> 0 then take (length data0 - 1) data0 else data0);
          frameCount = real (length data) / 2 / real numChannels
      in case createBuffer ctx numChannels frameCount rate of
           Inl e \<Rightarrow> Inl e
         | Inr buffer \<Rightarrow>
             (case decode_channels data numChannels frameCount (channelData buffer) 0 of
                Inl e \<Rightarrow> Inl e
              | Inr chans \<Rightarrow> Inr (buffer\<lparr>channelData := chans\<rparr>)))"

section \<open>The WAV encoder: bufferToWav\<close>

text \<open>The local helper \<^verbatim>\<open>writeString\<close>: one \<^verbatim>\<open>setUint8\<close> per character.\<close>

function writeString_from :: "DataView \<Rightarrow> nat \<Rightarrow> string \<Rightarrow> nat \<Rightarrow> error + DataView" where
  "writeString_from view offset str i =
     (if i < length str then
        (case setUint8 view (offset + i) (of_char (str ! i)) of
           Inl e \<Rightarrow> Inl e
         | Inr view' \<Rightarrow> writeString_from view' offset str (i + 1))
      else Inr view)"
  by pat_completeness auto
termination
  by (relation "measure (\<lambda>(view, offset, str, i). length str - i)") auto

definition writeString :: "DataView \<Rightarrow> nat \<Rightarrow> string \<Rightarrow> error + DataView" where
  "writeString view offset str = writeString_from view offset str 0"

text \<open>
  The two statements that turn a sample into a 16-bit integer:
  \<^verbatim>\<open>sample = Math.max(-1, Math.min(1, channels[i][pos]))\<close> and
  \<^verbatim>\<open>sample = (0.5 + sample < 0 ? sample * 32768 : sample * 32767) | 0\<close>.
  In the second, \<^verbatim>\<open>+\<close> binds tighter than \<^verbatim>\<open><\<close>: the test is \<open>0.5 + sample < 0\<close>.
\<close>

definition clamp_sample :: "number \<Rightarrow> number" where
  "clamp_sample s = Math_max (Fin (- 1)) (Math_min (Fin 1) s)"

definition scale_sample :: "number \<Rightarrow> number" where
  "scale_sample sample =
     (case sample of
        Fin s \<Rightarrow> Fin (if 0.5 + s < 0 then s * 32768 else s * 32767)
      | PosInf \<Rightarrow> PosInf
      | NegInf \<Rightarrow> NegInf
      | NaN \<Rightarrow> NaN)"

definition convert_sample :: "number \<Rightarrow> int" where
  "convert_sample s = ToInt32 (scale_sample (clamp_sample s))"

text \<open>The inner loop \<^verbatim>\<open>for (i = 0; i < numOfChan; i++)\<close> of one frame.\<close>

function write_frame ::
  "number list list \<Rightarrow> nat \<Rightarrow> nat \<Rightarrow> nat \<Rightarrow> DataView \<Rightarrow> nat \<Rightarrow> error + DataView \<times> nat" where
  "write_frame channels numOfChan pos i view offset =
     (if i < numOfChan then
        (let sample = convert_sample (typed_get (channels ! i) pos) in
         case setInt16 view offset sample True of
           Inl e \<Rightarrow> Inl e
         | Inr view' \<Rightarrow> write_frame channels numOfChan pos (i + 1) view' (offset + 2))
      else Inr (view, offset))"
  by pat_completeness auto
termination
  by (relation "measure (\<lambda>(channels, numOfChan, pos, i, view, offset). numOfChan - i)") auto

text \<open>The outer loop \<^verbatim>\<open>while (pos < buffer.length)\<close>.\<close>

function write_frames ::
  "number list list \<Rightarrow> nat \<Rightarrow> nat \<Rightarrow> nat \<Rightarrow> DataView \<Rightarrow> nat \<Rightarrow> error + DataView" where
  "write_frames channels numOfChan len pos view offset =
     (if pos < len then
        (case write_frame channels numOfChan pos 0 view offset of
           Inl e \<Rightarrow> Inl e
         | Inr (view', offset') \<Rightarrow> write_frames channels numOfChan len (pos + 1) view' offset')
      else Inr view)"
  by pat_completeness auto
termination
  by (relation "measure (\<lambda>(channels, numOfChan, len, pos, view, offset). len - pos)") auto

text \<open>Sequencing of fallible writes.\<close>

definition and_then :: "error + 'a \<Rightarrow> ('a \<Rightarrow> error + 'b) \<Rightarrow> error + 'b" where
  "and_then r f = (case r of Inl e \<Rightarrow> Inl e | Inr v \<Rightarrow> f v)"

definition write_header :: "AudioBuffer \<Rightarrow> DataView \<Rightarrow> error + DataView" where
  "write_header buffer view0 =
     (let numOfChan = numberOfChannels buffer in
      and_then (writeString view0 0 ''RIFF'') (\<lambda>view.
      and_then (setUint32 view 4 (36 + length_frames buffer * numOfChan * 2) True) (\<lambda>view.
      and_then (writeString view 8 ''WAVE'') (\<lambda>view.
      and_then (writeString view 12 ''fmt '') (\<lambda>view.
      and_then (setUint32 view 16 16 True) (\<lambda>view.
      and_then (setUint16 view 20 1 True) (\<lambda>view.
      and_then (setUint16 view 22 numOfChan True) (\<lambda>view.
      and_then (setUint32 view 24 (sampleRate buffer) True) (\<lambda>view.
      and_then (setUint32 view 28 (sampleRate buffer * 2 * numOfChan) True) (\<lambda>view.
      and_then (setUint16 view 32 (numOfChan * 2) True) (\<lambda>view.
      and_then (setUint16 view 34 16 True) (\<lambda>view.
      and_then (writeString view 36 ''data'') (\<lambda>view.
      setUint32 view 40 (length_frames buffer * numOfChan * 2) True)))))))))))))"

text \<open>
  \<^verbatim>\<open>bufferToWav\<close>: allocate \<open>length * numOfChan * 2 + 44\<close> zero bytes, write the header,
  collect the channels, write the interleaved samples from offset 44.  The result is the
  content of the Blob.
\<close>

definition bufferToWav :: "AudioBuffer \<Rightarrow> error + u8 list" where
  "bufferToWav buffer =
     (let numOfChan = numberOfChannels buffer;
          len = length_frames buffer * numOfChan * 2 + 44;
          view0 = replicate len 0
      in and_then (write_header buffer view0) (\<lambda>view.
           let channels = map (getChannelData buffer) [0..<numberOfChannels buffer]
           in write_frames channels numOfChan (length_frames buffer) 0 view 44))"

section \<open>The playback controller: the audio handlers of App.tsx\<close>

text \<open>
  The React state of the player (\<^verbatim>\<open>currentlyPlayingId\<close>, \<^verbatim>\<open>isPlaying\<close>, \<^verbatim>\<open>currentTime\<close>,
  \<^verbatim>\<open>duration\<close>), its refs (\<^verbatim>\<open>sourceNodeRef\<close>, \<^verbatim>\<open>startTimeRef\<close>, \<^verbatim>\<open>pausedAtRef\<close>,
  \<^verbatim>\<open>activeBufferRef\<close>, \<^verbatim>\<open>animationFrameRef\<close>) and the part of the platform the handlers
  act on are one record, passed through every handler.  A state setter is an
  assignment: every handler reads the state before it writes it.

  The platform part: the \<^verbatim>\<open>AudioBufferSourceNode\<close>s created so far (a node is referred to
  by its index), the animation-frame callbacks that are requested and not yet run or
  cancelled (handle and the \<^verbatim>\<open>id\<close> and \<^verbatim>\<open>buffer\<close> their closure captured), the next
  handle \<^verbatim>\<open>requestAnimationFrame\<close> returns (handles are positive), whether the context is
  suspended, the device actions in the order they were issued, and the errors the
  handlers threw and nothing caught.  Every read of the
  device clock \<^verbatim>\<open>ctx.currentTime\<close> is an argument of the handler that reads it:
  \<^verbatim>\<open>playAudio\<close> reads it as \<open>startAt\<close> and again, as \<open>now\<close>, in its first call of
  \<^verbatim>\<open>updateTime\<close>.  Times are real numbers.

  A node is active when it was started, not stopped and is connected.  A node that played
  to its end is still counted as active, so "at most one active node" in the model is at
  least as strong as on the device.
\<close>

datatype action =
    Resume
  | Stop nat
  | Disconnect nat
  | CancelFrame nat
  | Connect nat
  | Start nat real real
  | RequestFrame nat

record SourceNode =
  node_track :: string
  node_buffer :: AudioBuffer
  started :: bool
  stopped :: bool
  connected :: bool

definition active :: "SourceNode \<Rightarrow> bool" where
  "active node = (started node \<and> \<not> stopped node \<and> connected node)"

record Player =
  currentlyPlayingId :: "string option"
  isPlaying :: bool
  currentTime :: real
  durationState :: real
  sourceNodeRef :: "nat option"
  startTimeRef :: real
  pausedAtRef :: real
  activeBufferRef :: "AudioBuffer option"
  animationFrameRef :: nat
  nodes :: "SourceNode list"
  pendingFrames :: "(nat \<times> string \<times> AudioBuffer) list"
  nextFrame :: nat
  ctxSuspended :: bool
  trace :: "action list"
  uncaught :: "error list"

definition initial :: Player where
  "initial = \<lparr>currentlyPlayingId = None, isPlaying = False, currentTime = 0, durationState = 0,
     sourceNodeRef = None, startTimeRef = 0, pausedAtRef = 0, activeBufferRef = None,
     animationFrameRef = 0, nodes = [], pendingFrames = [], nextFrame = 1,
     ctxSuspended = False, trace = [], uncaught = []\<rparr>"

text \<open>
  \<^verbatim>\<open>stopSource\<close>.  Every node the ref holds was started, so \<^verbatim>\<open>stop()\<close> does not throw and
  the \<^verbatim>\<open>catch\<close> branch is never taken.
\<close>

definition stopSource :: "Player \<Rightarrow> Player" where
  "stopSource st =
     (let st1 = (case sourceNodeRef st of
                   Some n \<Rightarrow>
                     st\<lparr>nodes := (nodes st)[n := (nodes st ! n)\<lparr>stopped := True, connected := False\<rparr>],
                        trace := trace st @ [Stop n, Disconnect n],
                        sourceNodeRef := None\<rparr>
                 | None \<Rightarrow> st)
      in if animationFrameRef st1 \<noteq> 0 then
           st1\<lparr>pendingFrames := filter (\<lambda>(h, cb). h \<noteq> animationFrameRef st1) (pendingFrames st1),
               trace := trace st1 @ [CancelFrame (animationFrameRef st1)]\<rparr>
         else st1)"

text \<open>
  The animation loop \<^verbatim>\<open>updateTime\<close> of one \<^verbatim>\<open>playAudio\<close> call; \<open>ident\<close> and \<open>buffer\<close> are
  what its closure captured.
\<close>

definition updateTime :: "Player \<Rightarrow> string \<Rightarrow> AudioBuffer \<Rightarrow> real \<Rightarrow> Player" where
  "updateTime st ident buffer now =
     (let cur = now - startTimeRef st in
      if cur \<le> duration buffer then
        st\<lparr>currentTime := cur,
           animationFrameRef := nextFrame st,
           pendingFrames := pendingFrames st @ [(nextFrame st, ident, buffer)],
           nextFrame := nextFrame st + 1,
           trace := trace st @ [RequestFrame (nextFrame st)]\<rparr>
      else st)"

text \<open>
  \<^verbatim>\<open>playAudio\<close>.  The node is created and connected, then started:
  \<^verbatim>\<open>source.start(startAt, offset)\<close> throws RangeError for a negative offset, which ends
  the handler there; the error is recorded in \<open>uncaught\<close>.
\<close>

definition playAudio ::
  "Player \<Rightarrow> string \<Rightarrow> AudioBuffer \<Rightarrow> real \<Rightarrow> real \<Rightarrow> real \<Rightarrow> Player" where
  "playAudio st0 ident buffer offset startAt now =
     (let st1 = (if ctxSuspended st0 then st0\<lparr>ctxSuspended := False, trace := trace st0 @ [Resume]\<rparr>
                 else st0);
          st2 = (if currentlyPlayingId st1 \<noteq> Some ident then
                   (stopSource st1)\<lparr>pausedAtRef := 0, currentlyPlayingId := Some ident,
                      activeBufferRef := Some buffer, durationState := duration buffer\<rparr>
                 else stopSource st1);
          source = length (nodes st2)
      in if offset < 0 then
           st2\<lparr>nodes := nodes st2 @
                  [\<lparr>node_track = ident, node_buffer = buffer, started = False,
                    stopped = False, connected = True\<rparr>],
               trace := trace st2 @ [Connect source],
               uncaught := uncaught st2 @ [RangeError]\<rparr>
         else
           updateTime
             (st2\<lparr>nodes := nodes st2 @
                     [\<lparr>node_track = ident, node_buffer = buffer, started = True,
                       stopped = False, connected = True\<rparr>],
                  trace := trace st2 @ [Connect source, Start source startAt offset],
                  sourceNodeRef := Some source,
                  startTimeRef := startAt - offset,
                  isPlaying := True\<rparr>)
             ident buffer now)"

text \<open>
  The \<^verbatim>\<open>onended\<close> callback registered by \<^verbatim>\<open>playAudio\<close>; \<open>buffer\<close> is the buffer its closure
  captured, \<^verbatim>\<open>startTimeRef\<close> is read when the callback runs.
\<close>

definition onended :: "Player \<Rightarrow> AudioBuffer \<Rightarrow> real \<Rightarrow> Player" where
  "onended st buffer now =
     (let elapsed = now - startTimeRef st in
      if elapsed \<ge> duration buffer - 0.1 then
        st\<lparr>isPlaying := False, currentTime := 0, pausedAtRef := 0\<rparr>
      else st)"

text \<open>The browser runs the pending animation-frame callback with handle \<open>h\<close>.\<close>

definition animationFrame :: "Player \<Rightarrow> nat \<Rightarrow> real \<Rightarrow> Player" where
  "animationFrame st h now =
     (case map_of (pendingFrames st) h of
        None \<Rightarrow> st
      | Some (ident, buffer) \<Rightarrow>
          updateTime (st\<lparr>pendingFrames := filter (\<lambda>(k, cb). k \<noteq> h) (pendingFrames st)\<rparr>)
            ident buffer now)"

definition handlePause :: "Player \<Rightarrow> real \<Rightarrow> Player" where
  "handlePause st now =
     (let st1 = stopSource st in
      st1\<lparr>pausedAtRef := now - startTimeRef st1, isPlaying := False\<rparr>)"

text \<open>
  \<^verbatim>\<open>handleSeek\<close>; \<open>newTime\<close> is \<^verbatim>\<open>parseFloat(e.target.value)\<close>.  An empty string is falsy
  in \<^verbatim>\<open>if (currentlyPlayingId && ...)\<close>.
\<close>

definition handleSeek :: "Player \<Rightarrow> real \<Rightarrow> real \<Rightarrow> real \<Rightarrow> Player" where
  "handleSeek st newTime startAt now =
     (let st1 = st\<lparr>currentTime := newTime, pausedAtRef := newTime\<rparr> in
      case (currentlyPlayingId st, activeBufferRef st) of
        (Some ident, Some buffer) \<Rightarrow>
          if ident \<noteq> [] \<and> isPlaying st then playAudio st1 ident buffer newTime startAt now else st1
      | _ \<Rightarrow> st1)"

text \<open>
  The seek slider, the one place \<^verbatim>\<open>handleSeek\<close> is called from:
  \<^verbatim>\<open>input type="range" min={0} max={duration || 0} step={0.01} onChange={handleSeek}\<close>.
  A range input holds only values its attributes allow (the HTML Standard, range
  state).  Whatever position is asked for: below the minimum the value becomes the
  minimum; above the maximum it becomes the maximum, if that is not below the minimum;
  off the grid of steps that starts at the minimum it is rounded to the nearest grid
  value within these bounds, upwards from halfway, if there is one.  \<^verbatim>\<open>e.target.value\<close>
  carries that value into \<^verbatim>\<open>handleSeek\<close>.
\<close>

definition range_value :: "real \<Rightarrow> real \<Rightarrow> real \<Rightarrow> real \<Rightarrow> real" where
  "range_value minimum maximum stp v =
     (let bounded = (if v < minimum then minimum
                     else if minimum \<le> maximum \<and> maximum < v then maximum else v);
          nearest = minimum + real_of_int \<lfloor>(bounded - minimum) / stp + 1 / 2\<rfloor> * stp;
          allowed = (\<lambda>x. minimum \<le> x \<and> (maximum < minimum \<or> x \<le> maximum))
      in if allowed nearest then nearest
         else if allowed (nearest - stp) then nearest - stp
         else bounded)"

definition slider_value :: "Player \<Rightarrow> real \<Rightarrow> real" where
  "slider_value st v = range_value 0 (durationState st) (1 / 100) v"

definition onChange :: "Player \<Rightarrow> real \<Rightarrow> real \<Rightarrow> real \<Rightarrow> Player" where
  "onChange st v startAt now = handleSeek st (slider_value st v) startAt now"

text \<open>The player part of \<^verbatim>\<open>deleteHistoryItem\<close> and of the "delete all" button.\<close>

definition deleteHistoryItem :: "Player \<Rightarrow> string \<Rightarrow> Player" where
  "deleteHistoryItem st ident =
     (if currentlyPlayingId st = Some ident then
        (stopSource st)\<lparr>currentlyPlayingId := None, isPlaying := False, currentTime := 0,
           pausedAtRef := 0, activeBufferRef := None\<rparr>
      else st)"

definition clearHistory :: "Player \<Rightarrow> Player" where
  "clearHistory st = (stopSource st)\<lparr>currentlyPlayingId := None\<rparr>"

text \<open>
  Everything that can happen to the player, and runs of such events.  \<open>Seek\<close> is a call
  of \<^verbatim>\<open>handleSeek\<close> with any value, \<open>Slide\<close> is the user moving the slider, which is
  rendered while a track is selected.
\<close>

datatype event =
    Play string AudioBuffer real real real
  | Pause real
  | Seek real real real
  | Frame nat real
  | Ended nat real
  | Delete string
  | Clear
  | Slide real real real

fun step :: "Player \<Rightarrow> event \<Rightarrow> Player" where
  "step st (Play ident buffer offset startAt now) = playAudio st ident buffer offset startAt now"
| "step st (Pause now) = handlePause st now"
| "step st (Seek newTime startAt now) = handleSeek st newTime startAt now"
| "step st (Frame h now) = animationFrame st h now"
| "step st (Ended n now) =
     (if n < length (nodes st) then onended st (node_buffer (nodes st ! n)) now else st)"
| "step st (Delete ident) = deleteHistoryItem st ident"
| "step st Clear = clearHistory st"
| "step st (Slide v startAt now) =
     (case currentlyPlayingId st of
        Some ident \<Rightarrow> if ident \<noteq> [] then onChange st v startAt now else st
      | None \<Rightarrow> st)"

definition run :: "Player \<Rightarrow> event list \<Rightarrow> Player" where
  "run st evs = foldl step st evs"

text \<open>The position-update loop running at the device times \<open>ts\<close>.\<close>

fun ticks :: "Player \<Rightarrow> real list \<Rightarrow> Player" where
  "ticks st [] = st"
| "ticks st (t # ts) = ticks (animationFrame st (animationFrameRef st) t) ts"

text \<open>
  The invariant of the player: an active node is the one \<^verbatim>\<open>sourceNodeRef\<close> holds, the ref
  holds an existing node, and at most one animation frame is pending, the one
  \<^verbatim>\<open>animationFrameRef\<close> holds.
\<close>

definition inv :: "Player \<Rightarrow> bool" where
  "inv st =
     ((\<forall>k < length (nodes st). active (nodes st ! k) \<longrightarrow> sourceNodeRef st = Some k) \<and>
      (\<forall>n. sourceNodeRef st = Some n \<longrightarrow> n < length (nodes st)) \<and>
      (pendingFrames st = [] \<or>
         (\<exists>cb. pendingFrames st = [(animationFrameRef st, cb)] \<and> 0 < animationFrameRef st)) \<and>
      animationFrameRef st < nextFrame st)"

text \<open>
  The published duration is never negative, and it is the duration of the buffer
  \<^verbatim>\<open>activeBufferRef\<close> holds.
\<close>

definition duration_inv :: "Player \<Rightarrow> bool" where
  "duration_inv st =
     (0 \<le> durationState st \<and>
      (\<forall>b. activeBufferRef st = Some b \<longrightarrow> durationState st = duration b))"

text \<open>Buffers of two and of five seconds, and two states of a player.\<close>

definition two_seconds :: AudioBuffer where
  "two_seconds = \<lparr>sampleRate = 24000, length_frames = 48000, channelData = [replicate 48000 (Fin 0)]\<rparr>"

definition five_seconds :: AudioBuffer where
  "five_seconds = \<lparr>sampleRate = 24000, length_frames = 120000, channelData = [replicate 120000 (Fin 0)]\<rparr>"

definition short_clip :: AudioBuffer where
  "short_clip = \<lparr>sampleRate = 24000, length_frames = 1200, channelData = [replicate 1200 (Fin 0)]\<rparr>"

definition play_example :: Player where
  "play_example = playAudio initial ''a'' two_seconds 0 10 10"

definition pause_example :: Player where
  "pause_example = handlePause (animationFrame play_example 1 (21 / 2)) 11"

text \<open>
  A clip of a twentieth of a second starts at clock 10; the user switches to a
  two-second track at 10.02; its update loop runs at 10.03; the \<^verbatim>\<open>ended\<close> event of the
  clip's stopped source is delivered at 10.04.  And a track played, updated and paused.
\<close>

definition switch_example :: "event list" where
  "switch_example =
     [Play ''a'' short_clip 0 10 10,
      Play ''b'' two_seconds 0 (1002 / 100) (1002 / 100),
      Frame 2 (1003 / 100),
      Ended 0 (1004 / 100)]"

definition paused_events :: "event list" where
  "paused_events = [Play ''a'' two_seconds 0 10 10, Frame 1 (21 / 2), Pause 11]"

section \<open>Specification-side vocabulary\<close>

text \<open>
  The words the specification uses for byte layouts: the ASCII bytes of a literal, the
  little-endian value of a byte field, the bytes \<open>a .. a + n - 1\<close> of a file, and the
  signed 16-bit little-endian integer at a byte offset.
\<close>

definition ascii :: "string \<Rightarrow> u8 list" where
  "ascii str = map (\<lambda>c. of_nat (of_char c mod 256)) str"

fun le_value :: "u8 list \<Rightarrow> nat" where
  "le_value [] = 0"
| "le_value (b # bs) = unat b + 256 * le_value bs"

definition bytes_at :: "'a list \<Rightarrow> nat \<Rightarrow> nat \<Rightarrow> 'a list" where
  "bytes_at xs a n = take n (drop a xs)"

definition int16_at :: "u8 list \<Rightarrow> nat \<Rightarrow> int" where
  "int16_at bytes off =
     (let u = le_value (bytes_at bytes off 2) in if u < 32768 then int u else int u - 65536)"

text \<open>The header of section 4.2 of the specification, field by field.\<close>

definition wav_header :: "AudioBuffer \<Rightarrow> u8 list" where
  "wav_header buffer =
     ascii ''RIFF'' @ le_bytes 4 (36 + length_frames buffer * numberOfChannels buffer * 2) @
     ascii ''WAVE'' @ ascii ''fmt '' @ le_bytes 4 16 @ le_bytes 2 1 @
     le_bytes 2 (numberOfChannels buffer) @ le_bytes 4 (sampleRate buffer) @
     le_bytes 4 (sampleRate buffer * numberOfChannels buffer * 2) @
     le_bytes 2 (numberOfChannels buffer * 2) @ le_bytes 2 16 @
     ascii ''data'' @ le_bytes 4 (length_frames buffer * numberOfChannels buffer * 2)"

text \<open>The interleaved payload: frame-major, channel-minor, two bytes per sample.\<close>

definition sample_bytes :: "int \<Rightarrow> u8 list" where
  "sample_bytes v = le_bytes 2 (nat (v mod 65536))"

definition frame_bytes :: "number list list \<Rightarrow> nat \<Rightarrow> nat \<Rightarrow> nat \<Rightarrow> u8 list" where
  "frame_bytes channels numOfChan pos i =
     concat (map (\<lambda>c. sample_bytes (convert_sample (typed_get (channels ! c) pos))) [i..<numOfChan])"

definition payload_bytes :: "number list list \<Rightarrow> nat \<Rightarrow> nat \<Rightarrow> nat \<Rightarrow> u8 list" where
  "payload_bytes channels numOfChan len pos =
     concat (map (\<lambda>p. frame_bytes channels numOfChan p 0) [pos..<len])"

definition pcm_payload :: "AudioBuffer \<Rightarrow> u8 list" where
  "pcm_payload buffer =
     payload_bytes (channelData buffer) (numberOfChannels buffer) (length_frames buffer) 0"

text \<open>
  The quantization rule in the specification's words (section 4.2): clamp, then
  \<open>floor (s * 32768)\<close> for a negative sample and \<open>floor (s * 32767)\<close> otherwise.
\<close>

definition quantize_spec :: "real \<Rightarrow> int" where
  "quantize_spec s =
     (let c = max (- 1) (min 1 s) in if c < 0 then \<lfloor>c * 32768\<rfloor> else \<lfloor>c * 32767\<rfloor>)"

text \<open>A one-channel, 24000 Hz, 100-frame buffer of silence.\<close>

definition wav_example :: AudioBuffer where
  "wav_example = \<lparr>sampleRate = 24000, length_frames = 100, channelData = [replicate 100 (Fin 0)]\<rparr>"

text \<open>
  The sample the specification prescribes for frame \<open>i\<close> of a channel: the signed 16-bit
  little-endian integer at byte offset \<open>(i * channelCount + c) * 2\<close>, divided by 32768.
\<close>

definition decoded :: "u8 list \<Rightarrow> nat \<Rightarrow> nat \<Rightarrow> nat \<Rightarrow> number" where
  "decoded bytes numChannels channel i =
     Fin (real_of_int (int16_at bytes ((i * numChannels + channel) * 2)) / 32768)"

text \<open>The byte sequence with an odd trailing byte removed, as the decoder's first statement does.\<close>

definition even_prefix :: "u8 list \<Rightarrow> u8 list" where
  "even_prefix data0 = (if length data0 mod 2 \<noteq> 0 then take (length data0 - 1) data0 else data0)"

text \<open>
  What \<^verbatim>\<open>createBuffer\<close> of a context accepts as channel count and sample rate, and a
  context with exactly the limits every implementation must support.
\<close>

definition supports :: "AudioContext \<Rightarrow> nat \<Rightarrow> nat \<Rightarrow> bool" where
  "supports ctx numChannels rate =
     (0 < numChannels \<and> numChannels \<le> maxChannels ctx \<and>
      0 < rate \<and> minSampleRate ctx \<le> rate \<and> rate \<le> maxSampleRate ctx)"

definition standard_context :: AudioContext where
  "standard_context = \<lparr>maxChannels = 32, minSampleRate = 8000, maxSampleRate = 96000\<rparr>"

text \<open>Two one-channel buffers: a sample just below full scale, and the two extremes.\<close>

definition near_one :: AudioBuffer where
  "near_one = \<lparr>sampleRate = 24000, length_frames = 1, channelData = [[Fin (65535 / 65536)]]\<rparr>"

definition extremes :: AudioBuffer where
  "extremes = \<lparr>sampleRate = 24000, length_frames = 2, channelData = [[Fin 1, Fin (- 1)]]\<rparr>"

text \<open>A buffer with no frames.\<close>

definition empty_example :: AudioBuffer where
  "empty_example = \<lparr>sampleRate = 24000, length_frames = 0, channelData = [[]]\<rparr>"

declare decode_frames.simps [simp del] decode_channels.simps [simp del]
  writeString_from.simps [simp del] write_frame.simps [simp del] write_frames.simps [simp del]

section \<open>Lemmas about the encoder\<close>
lemma length_le_bytes [simp]: "length (le_bytes k n) = k"
  by (induction k arbitrary: n) auto

lemma length_ascii [simp]: "length (ascii s) = length s"
  by (simp add: ascii_def)

lemma store_append:
  "length pre = off \<Longrightarrow> length bs \<le> length post \<Longrightarrow>
   store (pre @ post) off bs = pre @ bs @ drop (length bs) post"
  by (simp add: store_def)

lemma length_store [simp]:
  "off + length bs \<le> length view \<Longrightarrow> length (store view off bs) = length view"
  by (simp add: store_def)

lemma writeString_from_append:
  "length pre = offset + i \<Longrightarrow> length str - i \<le> length post \<Longrightarrow> i \<le> length str \<Longrightarrow>
   writeString_from (pre @ post) offset str i =
     Inr (pre @ ascii (drop i str) @ drop (length str - i) post)"
proof (induction "length str - i" arbitrary: i pre post)
  case 0
  then show ?case by (simp add: ascii_def writeString_from.simps)
next
  case (Suc n)
  then have lt: "i < length str" by linarith
  have pos: "post \<noteq> []" using Suc.prems Suc.hyps by auto
  let ?b = "of_nat (of_char (str ! i) mod 256) :: u8"
  have st: "setUint8 (pre @ post) (offset + i) (of_char (str ! i)) = Inr ((pre @ [?b]) @ drop 1 post)"
    using Suc.prems pos by (simp add: setUint8_def store_append Suc_le_eq)
  have ih: "writeString_from ((pre @ [?b]) @ drop 1 post) offset str (i + 1) =
     Inr ((pre @ [?b]) @ ascii (drop (i + 1) str) @ drop (length str - (i + 1)) (drop 1 post))"
    using Suc.prems Suc.hyps lt by (intro Suc.hyps(1)) auto
  have dr: "drop i str = str ! i # drop (i + 1) str"
    using lt by (simp add: Cons_nth_drop_Suc)
  have d2: "drop (length str - (i + 1)) (drop 1 post) = drop (length str - i) post"
    using lt by (simp add: Suc_diff_Suc)
  show ?case
    apply (subst writeString_from.simps)
    using lt apply (simp only: if_True st sum.case ih d2)
    apply (simp add: dr ascii_def)
    done
qed

lemma writeString_store:
  "offset + length str \<le> length view \<Longrightarrow>
   writeString view offset str = Inr (store view offset (ascii str))"
proof -
  assume a: "offset + length str \<le> length view"
  have "writeString_from (take offset view @ drop offset view) offset str 0 =
     Inr (take offset view @ ascii (drop 0 str) @ drop (length str - 0) (drop offset view))"
    using a by (intro writeString_from_append) auto
  then show ?thesis by (simp add: writeString_def store_def add.commute)
qed

lemma length_wav_header [simp]: "length (wav_header buffer) = 44"
  by (simp add: wav_header_def)

lemma write_header_append:
  "write_header buffer (replicate 44 0 @ rest) = Inr (wav_header buffer @ rest)"
  by (simp add: write_header_def and_then_def writeString_store setUint32_def setUint16_def
      store_def wav_header_def Let_def mult.commute mult.left_commute)


lemma length_sample_bytes [simp]: "length (sample_bytes v) = 2"
  by (simp add: sample_bytes_def)

lemma length_frame_bytes [simp]:
  "length (frame_bytes channels numOfChan pos i) = 2 * (numOfChan - i)"
  by (simp add: frame_bytes_def length_concat comp_def sum_list_triv)

lemma length_payload_bytes [simp]:
  "length (payload_bytes channels numOfChan len pos) = 2 * numOfChan * (len - pos)"
  by (simp add: payload_bytes_def length_concat comp_def sum_list_triv)

lemma setInt16_append:
  "length pre = offset \<Longrightarrow> 2 \<le> length post \<Longrightarrow>
   setInt16 (pre @ post) offset v True = Inr (pre @ sample_bytes v @ drop 2 post)"
  by (simp add: setInt16_def setUint16_def store_append sample_bytes_def)

lemma write_frame_append:
  "length pre = offset \<Longrightarrow> 2 * (numOfChan - i) \<le> length post \<Longrightarrow>
   write_frame channels numOfChan pos i (pre @ post) offset =
     Inr (pre @ frame_bytes channels numOfChan pos i @ drop (2 * (numOfChan - i)) post,
          offset + 2 * (numOfChan - i))"
proof (induction "numOfChan - i" arbitrary: i pre post offset)
  case 0
  then show ?case by (simp add: frame_bytes_def write_frame.simps)
next
  case (Suc n)
  then have lt: "i < numOfChan" by linarith
  let ?s = "sample_bytes (convert_sample (typed_get (channels ! i) pos))"
  have st: "setInt16 (pre @ post) offset (convert_sample (typed_get (channels ! i) pos)) True =
      Inr ((pre @ ?s) @ drop 2 post)"
    using Suc.prems lt by (simp add: setInt16_append)
  have ih: "write_frame channels numOfChan pos (i + 1) ((pre @ ?s) @ drop 2 post) (offset + 2) =
      Inr ((pre @ ?s) @ frame_bytes channels numOfChan pos (i + 1) @
             drop (2 * (numOfChan - (i + 1))) (drop 2 post),
           (offset + 2) + 2 * (numOfChan - (i + 1)))"
    using Suc.prems Suc.hyps lt by (intro Suc.hyps(1)) auto
  have fb: "frame_bytes channels numOfChan pos i = ?s @ frame_bytes channels numOfChan pos (i + 1)"
    using lt by (simp add: frame_bytes_def upt_conv_Cons)
  have d2: "drop (2 * (numOfChan - (i + 1))) (drop 2 post) = drop (2 * (numOfChan - i)) post"
    using lt by (simp add: algebra_simps Suc_diff_Suc)
  have o2: "(offset + 2) + 2 * (numOfChan - (i + 1)) = offset + 2 * (numOfChan - i)"
    using lt by simp
  show ?case
    apply (subst write_frame.simps)
    using lt apply (simp only: if_True Let_def st sum.case ih d2 o2 fb)
    apply simp
    done
qed

lemma write_frames_append:
  "length pre = offset \<Longrightarrow> 2 * numOfChan * (len - pos) \<le> length post \<Longrightarrow>
   write_frames channels numOfChan len pos (pre @ post) offset =
     Inr (pre @ payload_bytes channels numOfChan len pos @ drop (2 * numOfChan * (len - pos)) post)"
proof (induction "len - pos" arbitrary: pos pre post offset)
  case 0
  then show ?case by (simp add: payload_bytes_def write_frames.simps)
next
  case (Suc n)
  then have lt: "pos < len" by linarith
  let ?f = "frame_bytes channels numOfChan pos 0"
  have split: "2 * numOfChan * (len - pos) = 2 * numOfChan + 2 * numOfChan * (len - (pos + 1))"
  proof -
    have "len - pos = Suc (len - (pos + 1))" using lt by simp
    then show ?thesis by simp
  qed
  have st: "write_frame channels numOfChan pos 0 (pre @ post) offset =
      Inr ((pre @ ?f) @ drop (2 * numOfChan) post, offset + 2 * numOfChan)"
    using Suc.prems split write_frame_append [of pre offset numOfChan 0 post channels pos]
    by simp
  have ih: "write_frames channels numOfChan len (pos + 1) ((pre @ ?f) @ drop (2 * numOfChan) post)
        (offset + 2 * numOfChan) =
      Inr ((pre @ ?f) @ payload_bytes channels numOfChan len (pos + 1) @
             drop (2 * numOfChan * (len - (pos + 1))) (drop (2 * numOfChan) post))"
    using Suc.prems Suc.hyps lt split by (intro Suc.hyps(1)) auto
  have pb: "payload_bytes channels numOfChan len pos = ?f @ payload_bytes channels numOfChan len (pos + 1)"
    using lt by (simp add: payload_bytes_def upt_conv_Cons)
  have d2: "drop (2 * numOfChan * (len - (pos + 1))) (drop (2 * numOfChan) post) =
      drop (2 * numOfChan * (len - pos)) post"
    using split by (simp add: add.commute)
  show ?case
    apply (subst write_frames.simps)
    using lt apply (simp only: if_True st sum.case prod.case ih d2 pb)
    apply simp
    done
qed

lemma channels_collected:
  "map (getChannelData buffer) [0..<numberOfChannels buffer] = channelData buffer"
  by (rule nth_equalityI) (simp_all add: getChannelData_def numberOfChannels_def)

lemma bufferToWav_bytes: "bufferToWav buffer = Inr (wav_header buffer @ pcm_payload buffer)"
proof -
  let ?n = "length_frames buffer * numberOfChannels buffer * 2"
  have z: "replicate (?n + 44) (0::u8) = replicate 44 0 @ replicate ?n 0"
    by (simp add: replicate_add [symmetric] add.commute)
  have hdr: "write_header buffer (replicate (?n + 44) 0) = Inr (wav_header buffer @ replicate ?n 0)"
    by (simp only: z write_header_append)
  have "write_frames (channelData buffer) (numberOfChannels buffer) (length_frames buffer) 0
      (wav_header buffer @ replicate ?n 0) 44 =
    Inr (wav_header buffer @ payload_bytes (channelData buffer) (numberOfChannels buffer)
        (length_frames buffer) 0 @
      drop (2 * numberOfChannels buffer * (length_frames buffer - 0)) (replicate ?n 0))"
    by (intro write_frames_append) (simp_all add: algebra_simps)
  then have w: "write_frames (channelData buffer) (numberOfChannels buffer) (length_frames buffer) 0
      (wav_header buffer @ replicate ?n 0) 44 = Inr (wav_header buffer @ pcm_payload buffer)"
    by (simp add: pcm_payload_def algebra_simps)
  show ?thesis
    unfolding bufferToWav_def Let_def
    by (simp only: hdr and_then_def sum.case channels_collected w)
qed


subsection \<open>Quantization\<close>

lemma clamp_sample_Fin: "clamp_sample (Fin s) = Fin (max (- 1) (min 1 s))"
  by (simp add: clamp_sample_def)

lemma clamp_sample_other:
  "clamp_sample PosInf = Fin 1" "clamp_sample NegInf = Fin (- 1)" "clamp_sample NaN = NaN"
  by (simp_all add: clamp_sample_def)

lemma wrap32_small:
  assumes "- 2147483648 \<le> n" "n < (2147483648::int)"
  shows "(let m = n mod 2 ^ 32 in if 2 ^ 31 \<le> m then m - 2 ^ 32 else m) = n"
proof (cases "0 \<le> n")
  case True
  then have "n mod 2 ^ 32 = n" using assms by (simp add: mod_pos_pos_trivial)
  then show ?thesis using assms by (simp add: Let_def)
next
  case False
  have "(n + 2 ^ 32) mod 2 ^ 32 = n + 2 ^ 32"
    using assms False by (intro mod_pos_pos_trivial) auto
  then have "n mod 2 ^ 32 = n + 2 ^ 32" by simp
  then show ?thesis using assms False by (simp add: Let_def)
qed

lemma ToInt32_Fin_small:
  assumes "- 2147483648 \<le> r" "r < 2147483648"
  shows "ToInt32 (Fin r) = (if r < 0 then \<lceil>r\<rceil> else \<lfloor>r\<rfloor>)"
proof -
  let ?n = "if r < 0 then \<lceil>r\<rceil> else \<lfloor>r\<rfloor>"
  have "- 2147483648 \<le> ?n" using assms by (auto simp: le_ceiling_iff le_floor_iff)
  moreover have "?n < 2147483648" using assms by (auto simp: ceiling_less_iff floor_less_iff)
  ultimately have "(let m = ?n mod 2 ^ 32 in if 2 ^ 31 \<le> m then m - 2 ^ 32 else m) = ?n"
    by (rule wrap32_small)
  then show ?thesis by (simp add: ToInt32_def Let_def)
qed

lemma convert_sample_Fin:
  "convert_sample (Fin s) =
     (let c = max (- 1) (min 1 s) in
      if c < - (1 / 2) then \<lceil>c * 32768\<rceil> else if c < 0 then \<lceil>c * 32767\<rceil> else \<lfloor>c * 32767\<rfloor>)"
proof -
  define c where "c = max (- 1) (min 1 s)"
  have b: "- 1 \<le> c" "c \<le> 1" by (auto simp: c_def)
  define x where "x = (if 0.5 + c < 0 then c * 32768 else c * 32767)"
  have xb: "- 2147483648 \<le> x" "x < 2147483648" using b by (auto simp: x_def)
  have "convert_sample (Fin s) = ToInt32 (Fin x)"
    by (simp only: convert_sample_def clamp_sample_Fin scale_sample_def number.case x_def c_def)
  also have "\<dots> = (if x < 0 then \<lceil>x\<rceil> else \<lfloor>x\<rfloor>)"
    using xb by (rule ToInt32_Fin_small)
  also have "\<dots> = (if c < - (1 / 2) then \<lceil>c * 32768\<rceil> else if c < 0 then \<lceil>c * 32767\<rceil> else \<lfloor>c * 32767\<rfloor>)"
    using b by (auto simp: x_def)
  finally show ?thesis unfolding Let_def c_def .
qed

lemma convert_sample_range: "- 32768 \<le> convert_sample s \<and> convert_sample s \<le> 32767"
proof (cases s)
  case (Fin r)
  define c where "c = max (- 1) (min 1 r)"
  have b: "- 1 \<le> c" "c \<le> 1" by (auto simp: c_def)
  have 1: "- 32768 \<le> \<lceil>c * 32768\<rceil>" using b by (simp add: le_ceiling_iff)
  have 2: "c < - (1/2) \<Longrightarrow> \<lceil>c * 32768\<rceil> \<le> 32767" by (simp add: ceiling_le_iff)
  have 3: "- 32768 \<le> \<lceil>c * 32767\<rceil>" using b by (simp add: le_ceiling_iff)
  have 4: "c < 0 \<Longrightarrow> \<lceil>c * 32767\<rceil> \<le> 32767" by (simp add: ceiling_le_iff)
  have 5: "\<not> c < 0 \<Longrightarrow> - 32768 \<le> \<lfloor>c * 32767\<rfloor>" by (simp add: le_floor_iff)
  have 6: "\<lfloor>c * 32767\<rfloor> \<le> 32767" using b by (simp add: floor_le_iff)
  show ?thesis unfolding Fin convert_sample_Fin Let_def c_def [symmetric]
    using 1 2 3 4 5 6 by auto
next
  case PosInf
  then show ?thesis
    by (simp add: convert_sample_def clamp_sample_def scale_sample_def ToInt32_def)
next
  case NegInf
  then show ?thesis
    by (simp add: convert_sample_def clamp_sample_def scale_sample_def ToInt32_def)
next
  case NaN
  then show ?thesis
    by (simp add: convert_sample_def clamp_sample_def scale_sample_def ToInt32_def)
qed

lemma convert_sample_error:
  assumes "- 1 \<le> s" "s \<le> 1"
  shows "\<bar>real_of_int (convert_sample (Fin s)) / 32768 - s\<bar> < 2 / 32768"
proof -
  have c: "max (- 1) (min 1 s) = s" using assms by auto
  have q0: "convert_sample (Fin s) =
      (if s < - (1 / 2) then \<lceil>s * 32768\<rceil> else if s < 0 then \<lceil>s * 32767\<rceil> else \<lfloor>s * 32767\<rfloor>)"
    by (simp only: convert_sample_Fin c Let_def)
  consider "s < - (1/2)" | "- (1/2) \<le> s" "s < 0" | "0 \<le> s" by linarith
  then show ?thesis
  proof cases
    case 1
    then have q: "convert_sample (Fin s) = \<lceil>s * 32768\<rceil>" by (simp add: q0)
    have "s * 32768 \<le> real_of_int \<lceil>s * 32768\<rceil>" "real_of_int \<lceil>s * 32768\<rceil> < s * 32768 + 1"
      by linarith+
    then show ?thesis unfolding q by linarith
  next
    case 2
    then have q: "convert_sample (Fin s) = \<lceil>s * 32767\<rceil>" by (simp add: q0)
    have "s * 32767 \<le> real_of_int \<lceil>s * 32767\<rceil>" "real_of_int \<lceil>s * 32767\<rceil> < s * 32767 + 1"
      by linarith+
    then show ?thesis unfolding q using 2 by linarith
  next
    case 3
    then have q: "convert_sample (Fin s) = \<lfloor>s * 32767\<rfloor>" by (simp add: q0)
    have "real_of_int \<lfloor>s * 32767\<rfloor> \<le> s * 32767" "s * 32767 - 1 < real_of_int \<lfloor>s * 32767\<rfloor>"
      by linarith+
    then show ?thesis unfolding q using 3 assms by linarith
  qed
qed



subsection \<open>Header fields\<close>

lemma le_value_le_bytes: "le_value (le_bytes k n) = n mod 256 ^ k"
proof (induction k arbitrary: n)
  case 0
  then show ?case by simp
next
  case (Suc k)
  have "unat (of_nat (n mod 256) :: u8) = n mod 256"
    by (simp add: unat_of_nat)
  then have "le_value (le_bytes (Suc k) n) = n mod 256 + 256 * (n div 256 mod 256 ^ k)"
    by (simp add: Suc.IH)
  also have "\<dots> = n mod (256 * 256 ^ k)"
    by (simp add: mod_mult2_eq)
  finally show ?case by simp
qed

lemma bytes_at_header:
  "bytes_at (wav_header b @ rest) 0 4 = ascii ''RIFF''"
  "bytes_at (wav_header b @ rest) 4 4 = le_bytes 4 (36 + length_frames b * numberOfChannels b * 2)"
  "bytes_at (wav_header b @ rest) 8 4 = ascii ''WAVE''"
  "bytes_at (wav_header b @ rest) 12 4 = ascii ''fmt ''"
  "bytes_at (wav_header b @ rest) 16 4 = le_bytes 4 16"
  "bytes_at (wav_header b @ rest) 20 2 = le_bytes 2 1"
  "bytes_at (wav_header b @ rest) 22 2 = le_bytes 2 (numberOfChannels b)"
  "bytes_at (wav_header b @ rest) 24 4 = le_bytes 4 (sampleRate b)"
  "bytes_at (wav_header b @ rest) 28 4 = le_bytes 4 (sampleRate b * numberOfChannels b * 2)"
  "bytes_at (wav_header b @ rest) 32 2 = le_bytes 2 (numberOfChannels b * 2)"
  "bytes_at (wav_header b @ rest) 34 2 = le_bytes 2 16"
  "bytes_at (wav_header b @ rest) 36 4 = ascii ''data''"
  "bytes_at (wav_header b @ rest) 40 4 = le_bytes 4 (length_frames b * numberOfChannels b * 2)"
  by (simp_all add: bytes_at_def wav_header_def)

lemma le_bytes_4: "le_bytes 4 n =
  [of_nat (n mod 256), of_nat (n div 256 mod 256), of_nat (n div 256 div 256 mod 256),
   of_nat (n div 256 div 256 div 256 mod 256)]"
proof -
  have "le_bytes (Suc (Suc (Suc (Suc 0)))) n =
    [of_nat (n mod 256), of_nat (n div 256 mod 256), of_nat (n div 256 div 256 mod 256),
     of_nat (n div 256 div 256 div 256 mod 256)]"
    by (simp only: le_bytes.simps)
  moreover have "(4::nat) = Suc (Suc (Suc (Suc 0)))" by simp
  ultimately show ?thesis by (simp only:)
qed

lemma length_pcm_payload [simp]:
  "length (pcm_payload b) = length_frames b * numberOfChannels b * 2"
  by (simp add: pcm_payload_def)

lemma convert_sample_half_open:
  "- (1 / 2) \<le> s \<Longrightarrow> s < 0 \<Longrightarrow> convert_sample (Fin s) = \<lceil>s * 32767\<rceil>"
  unfolding convert_sample_Fin Let_def by auto



section \<open>Lemmas about the decoder\<close>

lemma bytes_at_2: "off + 2 \<le> length view \<Longrightarrow> bytes_at view off 2 = [view ! off, view ! (off + 1)]"
proof -
  assume a: "off + 2 \<le> length view"
  have "drop off view = view ! off # drop (Suc off) view"
    using a by (simp add: Cons_nth_drop_Suc)
  moreover have "drop (Suc off) view = view ! (Suc off) # drop (Suc (Suc off)) view"
    using a by (simp add: Cons_nth_drop_Suc)
  moreover have "(2::nat) = Suc (Suc 0)" by simp
  ultimately show ?thesis by (simp add: bytes_at_def)
qed

lemma getInt16_int16_at:
  "off + 2 \<le> length view \<Longrightarrow> getInt16 view off True = Inr (int16_at view off)"
  by (simp add: getInt16_def int16_at_def bytes_at_2 Let_def)

lemma getInt16_Inr:
  "getInt16 view off True = Inr v \<Longrightarrow> off + 2 \<le> length view \<and> v = int16_at view off"
  using getInt16_int16_at [of off view]
  by (cases "off + 2 \<le> length view") (auto simp: getInt16_def)

lemma decode_frames_Inr:
  "decode_frames dv nc fc c cd i = Inr cd' \<Longrightarrow>
   length cd' = length cd \<and>
   (\<forall>j < length cd. cd' ! j = (if i \<le> j \<and> real j < fc then decoded dv nc c j else cd ! j)) \<and>
   (\<forall>j. i \<le> j \<and> real j < fc \<longrightarrow> (j * nc + c) * 2 + 2 \<le> length dv)"
proof (induction dv nc fc c cd i arbitrary: cd' rule: decode_frames.induct)
  case (1 dv nc fc c cd i)
  show ?case
  proof (cases "real i < fc")
    case False
    then have "cd' = cd" using "1.prems" by (simp add: decode_frames.simps)
    moreover have "\<And>j. i \<le> j \<Longrightarrow> \<not> real j < fc" using False by (meson le_less_trans of_nat_le_iff not_le order.strict_implies_order order_trans)
    ultimately show ?thesis by auto
  next
    case True
    obtain v where g: "getInt16 dv ((i * nc + c) * 2) True = Inr v"
      using "1.prems" True by (cases "getInt16 dv ((i * nc + c) * 2) True") (simp_all add: decode_frames.simps)
    then have gv: "(i * nc + c) * 2 + 2 \<le> length dv" "v = int16_at dv ((i * nc + c) * 2)"
      using getInt16_Inr by blast+
    have rec: "decode_frames dv nc fc c (cd[i := Fin (real_of_int v / 32768)]) (i + 1) = Inr cd'"
      using "1.prems" True g by (simp add: decode_frames.simps)
    have ih: "length cd' = length (cd[i := Fin (real_of_int v / 32768)]) \<and>
       (\<forall>j < length (cd[i := Fin (real_of_int v / 32768)]).
           cd' ! j = (if i + 1 \<le> j \<and> real j < fc then decoded dv nc c j
                      else cd[i := Fin (real_of_int v / 32768)] ! j)) \<and>
       (\<forall>j. i + 1 \<le> j \<and> real j < fc \<longrightarrow> (j * nc + c) * 2 + 2 \<le> length dv)"
      using "1.IH" [OF True refl g rec] .
    have len: "length cd' = length cd" using ih by simp
    have vals: "cd' ! j = (if i \<le> j \<and> real j < fc then decoded dv nc c j else cd ! j)"
      if "j < length cd" for j
    proof (cases "j = i")
      case True
      then show ?thesis using ih that \<open>real i < fc\<close> gv by (simp add: decoded_def)
    next
      case False
      then show ?thesis using ih that by (cases "i < j") auto
    qed
    have rng: "(j * nc + c) * 2 + 2 \<le> length dv" if "i \<le> j \<and> real j < fc" for j
      using that ih gv by (cases "j = i") auto
    show ?thesis using len vals rng by blast
  qed
qed

lemma decode_frames_ok:
  "(\<forall>j. i \<le> j \<and> real j < fc \<longrightarrow> (j * nc + c) * 2 + 2 \<le> length dv) \<Longrightarrow>
   \<exists>cd'. decode_frames dv nc fc c cd i = Inr cd'"
proof (induction dv nc fc c cd i rule: decode_frames.induct)
  case (1 dv nc fc c cd i)
  show ?case
  proof (cases "real i < fc")
    case False
    then show ?thesis by (simp add: decode_frames.simps)
  next
    case True
    then have r: "(i * nc + c) * 2 + 2 \<le> length dv" using "1.prems" by auto
    then have g: "getInt16 dv ((i * nc + c) * 2) True = Inr (int16_at dv ((i * nc + c) * 2))"
      by (rule getInt16_int16_at)
    have "\<exists>cd'. decode_frames dv nc fc c
        (cd[i := Fin (real_of_int (int16_at dv ((i * nc + c) * 2)) / 32768)]) (i + 1) = Inr cd'"
      using "1.prems" by (intro "1.IH" [OF True refl g]) auto
    then show ?thesis using True g by (simp add: decode_frames.simps)
  qed
qed

lemma decode_frames_fails:
  "i \<le> j \<Longrightarrow> real j < fc \<Longrightarrow> \<not> (j * nc + c) * 2 + 2 \<le> length dv \<Longrightarrow>
   decode_frames dv nc fc c cd i \<noteq> Inr cd'"
  using decode_frames_Inr by blast

lemma decode_channels_Inr:
  "decode_channels dv nc fc chans c = Inr chans' \<Longrightarrow>
   length chans' = length chans \<and>
   (\<forall>k < length chans.
      if c \<le> k \<and> k < nc then decode_frames dv nc fc k (chans ! k) 0 = Inr (chans' ! k)
      else chans' ! k = chans ! k)"
proof (induction dv nc fc chans c arbitrary: chans' rule: decode_channels.induct)
  case (1 dv nc fc chans c)
  show ?case
  proof (cases "c < nc")
    case False
    then have "chans' = chans" using "1.prems" by (simp add: decode_channels.simps)
    moreover have "\<And>k. c \<le> k \<Longrightarrow> \<not> k < nc" using False by linarith
    ultimately show ?thesis by auto
  next
    case True
    obtain cdat where f: "decode_frames dv nc fc c (chans ! c) 0 = Inr cdat"
      using "1.prems" True
      by (cases "decode_frames dv nc fc c (chans ! c) 0") (simp_all add: decode_channels.simps)
    have rec: "decode_channels dv nc fc (chans[c := cdat]) (c + 1) = Inr chans'"
      using "1.prems" True f by (simp add: decode_channels.simps)
    have ih: "length chans' = length (chans[c := cdat]) \<and>
      (\<forall>k < length (chans[c := cdat]).
        if c + 1 \<le> k \<and> k < nc then decode_frames dv nc fc k (chans[c := cdat] ! k) 0 = Inr (chans' ! k)
        else chans' ! k = chans[c := cdat] ! k)"
      using "1.IH" [OF True f rec] .
    have vals: "if c \<le> k \<and> k < nc then decode_frames dv nc fc k (chans ! k) 0 = Inr (chans' ! k)
        else chans' ! k = chans ! k" if "k < length chans" for k
    proof (cases "k = c")
      case True
      then show ?thesis using ih that f \<open>c < nc\<close> by auto
    next
      case False
      then show ?thesis using ih that by (cases "c < k") auto
    qed
    have len: "length chans' = length chans" using ih by simp
    show ?thesis using len vals by blast
  qed
qed

lemma decode_channels_ok:
  "(\<forall>k j. c \<le> k \<and> k < nc \<and> real j < fc \<longrightarrow> (j * nc + k) * 2 + 2 \<le> length dv) \<Longrightarrow>
   \<exists>chans'. decode_channels dv nc fc chans c = Inr chans'"
proof (induction dv nc fc chans c rule: decode_channels.induct)
  case (1 dv nc fc chans c)
  show ?case
  proof (cases "c < nc")
    case False
    then show ?thesis by (simp add: decode_channels.simps)
  next
    case True
    have "\<exists>cd'. decode_frames dv nc fc c (chans ! c) 0 = Inr cd'"
      using "1.prems" True by (intro decode_frames_ok) auto
    then obtain cdat where f: "decode_frames dv nc fc c (chans ! c) 0 = Inr cdat" by blast
    have "\<exists>chans'. decode_channels dv nc fc (chans[c := cdat]) (c + 1) = Inr chans'"
      using "1.prems" by (intro "1.IH" [OF True f]) auto
    then show ?thesis using True f by (simp add: decode_channels.simps)
  qed
qed

lemma length_even_prefix: "length (even_prefix d) = 2 * (length d div 2)"
  by (auto simp: even_prefix_def) presburger+

lemma even_prefix_take: "even_prefix d = take (2 * (length d div 2)) d"
proof (cases "length d mod 2 = 0")
  case True
  then have "2 * (length d div 2) = length d" by presburger
  then show ?thesis using True by (simp add: even_prefix_def)
next
  case False
  then have "2 * (length d div 2) = length d - 1" by presburger
  then show ?thesis using False by (simp add: even_prefix_def)
qed

lemma int16_at_take: "off + 2 \<le> n \<Longrightarrow> int16_at (take n d) off = int16_at d off"
proof -
  assume a: "off + 2 \<le> n"
  have "take 2 (drop off (take n d)) = take 2 (drop off d)"
    using a by (simp add: drop_take min_def)
  then show ?thesis by (simp add: int16_at_def bytes_at_def)
qed

lemma decoded_even_prefix:
  "(i * nc + c) * 2 + 2 \<le> length (even_prefix d) \<Longrightarrow> decoded (even_prefix d) nc c i = decoded d nc c i"
  unfolding decoded_def length_even_prefix even_prefix_take
  by (simp add: int16_at_take)

lemma decode_core:
  assumes "decode_channels dv nc fc (replicate nc (replicate n z)) 0 = Inr chans"
  shows "length chans = nc \<and>
     (\<forall>k<nc. length (chans ! k) = n \<and>
        (\<forall>j<n. chans ! k ! j = (if real j < fc then decoded dv nc k j else z)) \<and>
        (\<forall>j. real j < fc \<longrightarrow> (j * nc + k) * 2 + 2 \<le> length dv))"
proof -
  from decode_channels_Inr [OF assms]
  have len: "length chans = nc"
    and each: "\<And>k. k < nc \<Longrightarrow> decode_frames dv nc fc k (replicate n z) 0 = Inr (chans ! k)"
    by auto
  have "length (chans ! k) = n \<and>
        (\<forall>j<n. chans ! k ! j = (if real j < fc then decoded dv nc k j else z)) \<and>
        (\<forall>j. real j < fc \<longrightarrow> (j * nc + k) * 2 + 2 \<le> length dv)" if "k < nc" for k
    using decode_frames_Inr [OF each [OF that]] by auto
  then show ?thesis using len by blast
qed

lemma floor_frames: "nat \<lfloor>real (2 * m) / 2 / real nc\<rfloor> = m div nc"
proof -
  have "real (2 * m) / 2 / real nc = real m / real nc" by simp
  moreover have "\<lfloor>real m / real nc\<rfloor> = int (m div nc)"
    by (simp add: floor_divide_of_nat_eq)
  ultimately show ?thesis by simp
qed

lemma decodeAudioData_unfold:
  "decodeAudioData data0 ctx rate nc =
     (case createBuffer ctx nc (real (length (even_prefix data0)) / 2 / real nc) rate of
        Inl e \<Rightarrow> Inl e
      | Inr buffer \<Rightarrow>
          (case decode_channels (even_prefix data0) nc (real (length (even_prefix data0)) / 2 / real nc)
                  (channelData buffer) 0 of
             Inl e \<Rightarrow> Inl e
           | Inr chans \<Rightarrow> Inr (buffer\<lparr>channelData := chans\<rparr>)))"
  by (simp only: decodeAudioData_def even_prefix_def Let_def)

lemma createBuffer_Inr:
  "createBuffer ctx nc len rate = Inr buffer \<Longrightarrow>
     supports ctx nc rate \<and> nat \<lfloor>len\<rfloor> \<noteq> 0 \<and>
     buffer = \<lparr>sampleRate = rate, length_frames = nat \<lfloor>len\<rfloor>,
               channelData = replicate nc (replicate (nat \<lfloor>len\<rfloor>) (Fin 0))\<rparr>"
  by (auto simp: createBuffer_def supports_def Let_def split: if_splits)

lemma createBuffer_ok:
  "supports ctx nc rate \<Longrightarrow> nat \<lfloor>len\<rfloor> \<noteq> 0 \<Longrightarrow>
     createBuffer ctx nc len rate =
       Inr \<lparr>sampleRate = rate, length_frames = nat \<lfloor>len\<rfloor>,
            channelData = replicate nc (replicate (nat \<lfloor>len\<rfloor>) (Fin 0))\<rparr>"
  by (auto simp: createBuffer_def supports_def Let_def)

lemma createBuffer_rejects:
  "\<not> supports ctx nc rate \<or> nat \<lfloor>len\<rfloor> = 0 \<Longrightarrow> createBuffer ctx nc len rate = Inl NotSupportedError"
  by (auto simp: createBuffer_def supports_def Let_def)

lemma decodeAudioData_Inr:
  assumes "decodeAudioData data0 ctx rate nc = Inr buffer"
  shows "numberOfChannels buffer = nc \<and> sampleRate buffer = rate \<and>
     length_frames buffer = length data0 div 2 div nc \<and>
     0 < nc \<and> 0 < length_frames buffer \<and>
     (\<forall>c<nc. length (channelData buffer ! c) = length_frames buffer \<and>
        (\<forall>i<length_frames buffer. (i * nc + c) * 2 + 2 \<le> length data0 \<and>
            channelData buffer ! c ! i = decoded data0 nc c i) \<and>
        (\<forall>j. real j < real (length data0 div 2) / real nc \<longrightarrow> (j * nc + c) * 2 + 2 \<le> 2 * (length data0 div 2)))"
proof -
  define m where "m = length data0 div 2"
  define fc where "fc = real (length (even_prefix data0)) / 2 / real nc"
  define n where "n = m div nc"
  have n: "nat \<lfloor>fc\<rfloor> = n" unfolding fc_def length_even_prefix n_def m_def by (rule floor_frames)
  have fc: "fc = real m / real nc" unfolding fc_def length_even_prefix m_def by simp
  have fc0: "0 \<le> fc" unfolding fc by simp
  let ?b0 = "\<lparr>sampleRate = rate, length_frames = n, channelData = replicate nc (replicate n (Fin 0))\<rparr>"
  obtain b0 where cb0: "createBuffer ctx nc fc rate = Inr b0"
    using assms unfolding decodeAudioData_unfold fc_def [symmetric]
    by (cases "createBuffer ctx nc fc rate") auto
  from createBuffer_Inr [OF cb0] have pos: "nc \<noteq> 0 \<and> n \<noteq> 0" and cb: "createBuffer ctx nc fc rate = Inr ?b0"
    using cb0 by (auto simp: n supports_def)
  obtain chans where dc: "decode_channels (even_prefix data0) nc fc (replicate nc (replicate n (Fin 0))) 0 = Inr chans"
    and b: "buffer = ?b0\<lparr>channelData := chans\<rparr>"
    using assms unfolding decodeAudioData_unfold fc_def [symmetric] cb
    by (auto split: sum.splits)
  note core = decode_core [OF dc]
  have lt: "real i < fc" if "i < n" for i
  proof -
    have "real (i + 1) \<le> real n" using that by simp
    also have "real n \<le> fc" using n fc0 by linarith
    finally show ?thesis by simp
  qed
  have per: "length (chans ! c) = n \<and>
        (\<forall>i<n. (i * nc + c) * 2 + 2 \<le> length data0 \<and> chans ! c ! i = decoded data0 nc c i) \<and>
        (\<forall>j. real j < real m / real nc \<longrightarrow> (j * nc + c) * 2 + 2 \<le> 2 * m)"
    if c: "c < nc" for c
  proof -
    from core c have l: "length (chans ! c) = n"
      and v: "\<And>j. j < n \<Longrightarrow> chans ! c ! j = (if real j < fc then decoded (even_prefix data0) nc c j else Fin 0)"
      and r: "\<And>j. real j < fc \<Longrightarrow> (j * nc + c) * 2 + 2 \<le> length (even_prefix data0)"
      by auto
    have a: "(i * nc + c) * 2 + 2 \<le> length data0 \<and> chans ! c ! i = decoded data0 nc c i" if "i < n" for i
    proof -
      have r': "(i * nc + c) * 2 + 2 \<le> length (even_prefix data0)" using r lt that by simp
      then have "(i * nc + c) * 2 + 2 \<le> length data0" unfolding length_even_prefix by linarith
      moreover have "chans ! c ! i = decoded data0 nc c i"
        using v [OF that] lt [OF that] decoded_even_prefix [OF r'] by simp
      ultimately show ?thesis by simp
    qed
    have "(j * nc + c) * 2 + 2 \<le> 2 * m" if "real j < real m / real nc" for j
      using r [of j] that unfolding fc length_even_prefix m_def by simp
    then show ?thesis using l a by blast
  qed
  show ?thesis
    using pos per core unfolding b n_def [symmetric] m_def [symmetric]
    by (simp add: numberOfChannels_def n_def)
qed

lemma decodeAudioData_supported:
  assumes "decodeAudioData data0 ctx rate nc = Inr buffer"
  shows "supports ctx nc rate"
proof -
  obtain b0 where "createBuffer ctx nc (real (length (even_prefix data0)) / 2 / real nc) rate = Inr b0"
    using assms unfolding decodeAudioData_unfold
    by (cases "createBuffer ctx nc (real (length (even_prefix data0)) / 2 / real nc) rate") auto
  from createBuffer_Inr [OF this] show ?thesis by simp
qed

lemma decodeAudioData_ok:
  assumes sup: "supports ctx nc rate" and dv: "nc dvd length data0 div 2" and pos: "0 < length data0 div 2"
  shows "\<exists>buffer. decodeAudioData data0 ctx rate nc = Inr buffer"
proof -
  define m where "m = length data0 div 2"
  define n where "n = m div nc"
  define fc where "fc = real (length (even_prefix data0)) / 2 / real nc"
  have nc: "0 < nc" using sup by (simp add: supports_def)
  have mn: "m = n * nc" using dv unfolding n_def m_def by simp
  have npos: "0 < n" using pos nc mn unfolding m_def [symmetric] by (cases n) auto
  have fc: "fc = real n" unfolding fc_def length_even_prefix m_def [symmetric] using nc mn by simp
  have cb: "createBuffer ctx nc fc rate =
      Inr \<lparr>sampleRate = rate, length_frames = n, channelData = replicate nc (replicate n (Fin 0))\<rparr>"
    using createBuffer_ok [OF sup, of fc] npos by (simp add: fc)
  have rng: "(j * nc + k) * 2 + 2 \<le> length (even_prefix data0)" if "k < nc" "real j < fc" for k j
  proof -
    have "j + 1 \<le> n" using that fc by simp
    then have "(j + 1) * nc \<le> n * nc" by (rule mult_le_mono1)
    then have "j * nc + k + 1 \<le> m" using that mn by simp
    then show ?thesis unfolding length_even_prefix m_def by simp
  qed
  have "\<exists>chans. decode_channels (even_prefix data0) nc fc (replicate nc (replicate n (Fin 0))) 0 = Inr chans"
    using rng by (intro decode_channels_ok) auto
  then show ?thesis
    unfolding decodeAudioData_unfold fc_def [symmetric] cb by auto
qed

lemma partial_frame_rejected:
  assumes nc: "0 < nc" and dv: "\<not> nc dvd length data0 div 2"
  shows "decodeAudioData data0 ctx rate nc \<noteq> Inr buffer"
proof
  assume a: "decodeAudioData data0 ctx rate nc = Inr buffer"
  define m where "m = length data0 div 2"
  define j where "j = m div nc"
  define c where "c = m mod nc"
  have c: "c < nc" using nc by (simp add: c_def)
  have m: "j * nc + c = m" by (simp add: j_def c_def)
  have "c \<noteq> 0" using dv by (auto simp: c_def m_def dvd_eq_mod_eq_0)
  then have "real (j * nc) < real m" using m by linarith
  then have "real j < real m / real nc" using nc by (simp add: field_simps)
  then have "(j * nc + c) * 2 + 2 \<le> 2 * m"
    using decodeAudioData_Inr [OF a] c unfolding m_def by blast
  then show False using m by simp
qed

text \<open>
  What \<^verbatim>\<open>createBuffer\<close> refuses, the decoder refuses: an input without a whole frame
  (the quotient truncates to a length of zero), and a channel count or sample rate the
  context does not support.
\<close>

lemma decodeAudioData_rejects:
  assumes "\<not> supports ctx nc rate \<or> length data0 div 2 < nc"
  shows "decodeAudioData data0 ctx rate nc = Inl NotSupportedError"
proof -
  have "nat \<lfloor>real (length (even_prefix data0)) / 2 / real nc\<rfloor> = length data0 div 2 div nc"
    unfolding length_even_prefix by (rule floor_frames)
  then have "\<not> supports ctx nc rate \<or> nat \<lfloor>real (length (even_prefix data0)) / 2 / real nc\<rfloor> = 0"
    using assms by auto
  from createBuffer_rejects [OF this] show ?thesis
    unfolding decodeAudioData_unfold by simp
qed

lemma decodeAudioData_empty: "decodeAudioData [] ctx rate nc = Inl NotSupportedError"
  by (rule decodeAudioData_rejects) (auto simp: supports_def)

subsection \<open>Reading the encoder's payload back\<close>

lemma length_concat_uniform:
  "(\<forall>j<n. length (f j) = m) \<Longrightarrow> length (concat (map f [0..<n])) = n * m"
  by (induction n) auto

lemma bytes_at_concat:
  "(\<forall>j<n. length (f j) = m) \<Longrightarrow> k < n \<Longrightarrow> bytes_at (concat (map f [0..<n])) (k * m) m = f k"
proof (induction n)
  case 0
  then show ?case by simp
next
  case (Suc n)
  let ?A = "concat (map f [0..<n])"
  have lenA: "length ?A = n * m" using Suc.prems by (intro length_concat_uniform) auto
  have lenB: "length (f n) = m" using Suc.prems by auto
  show ?case
  proof (cases "k < n")
    case True
    then have "k + 1 \<le> n" by simp
    then have "(k + 1) * m \<le> n * m" by (rule mult_le_mono1)
    then have le: "k * m + m \<le> length ?A" using lenA by simp
    have "bytes_at (?A @ f n) (k * m) m = bytes_at ?A (k * m) m"
      using le by (simp add: bytes_at_def)
    also have "\<dots> = f k" using Suc.IH Suc.prems True by auto
    finally show ?thesis by simp
  next
    case False
    then have "k = n" using Suc.prems by simp
    then show ?thesis using lenA lenB by (simp add: bytes_at_def)
  qed
qed

lemma bytes_at_nested:
  "b + n \<le> m \<Longrightarrow> bytes_at (bytes_at xs a m) b n = bytes_at xs (a + b) n"
  by (simp add: bytes_at_def drop_take add.commute min_def)

lemma payload_sample:
  assumes "c < nc" "i < len"
  shows "bytes_at (payload_bytes channels nc len 0) ((i * nc + c) * 2) 2 =
     sample_bytes (convert_sample (typed_get (channels ! c) i))"
proof -
  have 1: "bytes_at (payload_bytes channels nc len 0) (i * (2 * nc)) (2 * nc) = frame_bytes channels nc i 0"
    unfolding payload_bytes_def using assms by (intro bytes_at_concat) auto
  have 2: "bytes_at (frame_bytes channels nc i 0) (c * 2) 2 =
     sample_bytes (convert_sample (typed_get (channels ! c) i))"
    unfolding frame_bytes_def using assms by (intro bytes_at_concat) auto
  have "c * 2 + 2 \<le> 2 * nc" using assms by simp
  then have "bytes_at (bytes_at (payload_bytes channels nc len 0) (i * (2 * nc)) (2 * nc)) (c * 2) 2 =
     bytes_at (payload_bytes channels nc len 0) (i * (2 * nc) + c * 2) 2"
    by (rule bytes_at_nested)
  moreover have "i * (2 * nc) + c * 2 = (i * nc + c) * 2" by (simp add: algebra_simps)
  ultimately show ?thesis using 1 2 by simp
qed

lemma int16_roundtrip:
  assumes "- 32768 \<le> v" "v \<le> (32767::int)"
  shows "(let u = nat (v mod 65536) in if u < 32768 then int u else int u - 65536) = v"
proof (cases "0 \<le> v")
  case True
  then have "v mod 65536 = v" using assms by (simp add: mod_pos_pos_trivial)
  then show ?thesis using True assms by (simp add: Let_def)
next
  case False
  have "(v + 65536) mod 65536 = v + 65536" using assms False by (intro mod_pos_pos_trivial) auto
  then have "v mod 65536 = v + 65536" by simp
  then show ?thesis using False assms by (simp add: Let_def)
qed

lemma le_value_sample_bytes: "le_value (sample_bytes v) = nat (v mod 65536)"
proof -
  have "0 \<le> v mod 65536" "v mod 65536 < 65536" by simp_all
  then have "nat (v mod 65536) < 65536" by linarith
  then show ?thesis by (simp add: sample_bytes_def le_value_le_bytes)
qed

lemma int16_at_payload:
  assumes "c < nc" "i < len"
  shows "int16_at (payload_bytes channels nc len 0) ((i * nc + c) * 2) =
     convert_sample (typed_get (channels ! c) i)"
  unfolding int16_at_def payload_sample [OF assms] le_value_sample_bytes
  using int16_roundtrip [of "convert_sample (typed_get (channels ! c) i)"] convert_sample_range
  by simp

lemma floor_half_frames: "nat \<lfloor>real L / 2 / real nc\<rfloor> = L div 2 div nc"
proof -
  have "real L / 2 / real nc = real L / real (2 * nc)" by simp
  moreover have "\<lfloor>real L / real (2 * nc)\<rfloor> = int (L div (2 * nc))"
    by (rule floor_divide_of_nat_eq)
  ultimately show ?thesis by (simp add: div_mult2_eq)
qed

lemma two_by_two:
  "decodeAudioData [1, 0, 2, 0, 3, 0, 4, 0] standard_context 24000 2 =
     Inr \<lparr>sampleRate = 24000, length_frames = 2,
          channelData = [[Fin (1 / 32768), Fin (3 / 32768)], [Fin (2 / 32768), Fin (4 / 32768)]]\<rparr>"
proof -
  have r: "replicate 2 (replicate 2 (Fin 0)) = [[Fin 0, Fin 0], [Fin 0, Fin 0]]"
    by (simp add: numeral_2_eq_2)
  show ?thesis
    by (simp add: decodeAudioData_def createBuffer_def standard_context_def
        decode_channels.simps decode_frames.simps getInt16_def Let_def r)
qed


section \<open>Lemmas about the playback controller\<close>

lemma invD:
  assumes "inv st"
  shows "\<And>k. k < length (nodes st) \<Longrightarrow> active (nodes st ! k) \<Longrightarrow> sourceNodeRef st = Some k"
    and "\<And>n. sourceNodeRef st = Some n \<Longrightarrow> n < length (nodes st)"
    and "pendingFrames st = [] \<or>
         (\<exists>cb. pendingFrames st = [(animationFrameRef st, cb)] \<and> 0 < animationFrameRef st)"
    and "animationFrameRef st < nextFrame st"
  using assms unfolding inv_def by blast+

lemma invI:
  assumes "\<And>k. k < length (nodes st) \<Longrightarrow> active (nodes st ! k) \<Longrightarrow> sourceNodeRef st = Some k"
    and "\<And>n. sourceNodeRef st = Some n \<Longrightarrow> n < length (nodes st)"
    and "pendingFrames st = [] \<or>
         (\<exists>cb. pendingFrames st = [(animationFrameRef st, cb)] \<and> 0 < animationFrameRef st)"
    and "animationFrameRef st < nextFrame st"
  shows "inv st"
  unfolding inv_def using assms by blast

lemma inv_cong:
  assumes i: "inv st" and n: "nodes st' = nodes st" and s: "sourceNodeRef st' = sourceNodeRef st"
    and p: "pendingFrames st' = [] \<or> pendingFrames st' = pendingFrames st"
    and a: "animationFrameRef st' = animationFrameRef st" and f: "nextFrame st' = nextFrame st"
  shows "inv st'"
proof (rule invI)
  fix k assume "k < length (nodes st')" "active (nodes st' ! k)"
  then show "sourceNodeRef st' = Some k" using invD(1) [OF i, of k] by (simp only: n s)
next
  fix m assume "sourceNodeRef st' = Some m"
  then show "m < length (nodes st')" using invD(2) [OF i, of m] by (simp only: n s)
next
  from p show "pendingFrames st' = [] \<or>
         (\<exists>cb. pendingFrames st' = [(animationFrameRef st', cb)] \<and> 0 < animationFrameRef st')"
  proof
    assume "pendingFrames st' = []"
    then show ?thesis by (rule disjI1)
  next
    assume "pendingFrames st' = pendingFrames st"
    then show ?thesis using invD(3) [OF i] by (simp only: a)
  qed
next
  show "animationFrameRef st' < nextFrame st'" using invD(4) [OF i] by (simp only: a f)
qed


lemma inv_initial: "inv initial"
  by (rule invI) (simp_all add: initial_def)

lemma stopSource_nodes:
  "nodes (stopSource st) =
     (case sourceNodeRef st of
        Some n \<Rightarrow> (nodes st)[n := (nodes st ! n)\<lparr>stopped := True, connected := False\<rparr>]
      | None \<Rightarrow> nodes st)"
  by (simp add: stopSource_def Let_def split: option.split)

lemma length_nodes_stopSource [simp]: "length (nodes (stopSource st)) = length (nodes st)"
  by (simp add: stopSource_nodes split: option.split)

lemma stopSource_fields [simp]:
  "sourceNodeRef (stopSource st) = None"
  "pendingFrames (stopSource st) =
     (if animationFrameRef st \<noteq> 0
      then filter (\<lambda>(h, cb). h \<noteq> animationFrameRef st) (pendingFrames st)
      else pendingFrames st)"
  "animationFrameRef (stopSource st) = animationFrameRef st"
  "nextFrame (stopSource st) = nextFrame st"
  "startTimeRef (stopSource st) = startTimeRef st"
  "pausedAtRef (stopSource st) = pausedAtRef st"
  "currentTime (stopSource st) = currentTime st"
  "isPlaying (stopSource st) = isPlaying st"
  "currentlyPlayingId (stopSource st) = currentlyPlayingId st"
  "activeBufferRef (stopSource st) = activeBufferRef st"
  "durationState (stopSource st) = durationState st"
  "ctxSuspended (stopSource st) = ctxSuspended st"
  "uncaught (stopSource st) = uncaught st"
  by (simp_all add: stopSource_def Let_def split: option.split)

lemma stopSource_trace:
  "trace (stopSource st) = trace st @
     (case sourceNodeRef st of Some n \<Rightarrow> [Stop n, Disconnect n] | None \<Rightarrow> []) @
     (if animationFrameRef st \<noteq> 0 then [CancelFrame (animationFrameRef st)] else [])"
  by (simp add: stopSource_def Let_def split: option.split)

lemma stopSource_pending: "inv st \<Longrightarrow> pendingFrames (stopSource st) = []"
  using invD(3) [of st] by auto

lemma stopSource_previous:
  "sourceNodeRef st = Some n \<Longrightarrow> n < length (nodes st) \<Longrightarrow>
   stopped (nodes (stopSource st) ! n) \<and> \<not> connected (nodes (stopSource st) ! n)"
  by (simp add: stopSource_nodes)

lemma stopSource_silent:
  assumes "inv st" "k < length (nodes st)"
  shows "\<not> active (nodes (stopSource st) ! k)"
proof (cases "sourceNodeRef st")
  case None
  then have "nodes (stopSource st) = nodes st" by (simp add: stopSource_nodes)
  moreover have "\<not> active (nodes st ! k)" using invD(1) [OF assms(1), of k] assms(2) None by auto
  ultimately show ?thesis by simp
next
  case (Some n)
  show ?thesis
  proof (cases "k = n")
    case True
    then show ?thesis using assms Some by (simp add: active_def stopSource_nodes)
  next
    case False
    then have "nodes (stopSource st) ! k = nodes st ! k" using Some by (simp add: stopSource_nodes)
    moreover have "\<not> active (nodes st ! k)"
      using invD(1) [OF assms(1), of k] assms(2) Some False by auto
    ultimately show ?thesis by simp
  qed
qed

lemma stopSource_inv: "inv st \<Longrightarrow> inv (stopSource st)"
proof (rule invI)
  assume a: "inv st"
  show "pendingFrames (stopSource st) = [] \<or>
     (\<exists>cb. pendingFrames (stopSource st) = [(animationFrameRef (stopSource st), cb)] \<and>
           0 < animationFrameRef (stopSource st))"
    using stopSource_pending [OF a] by (rule disjI1)
  show "animationFrameRef (stopSource st) < nextFrame (stopSource st)"
    using invD(4) [OF a] by simp
  show "sourceNodeRef (stopSource st) = Some k"
    if "k < length (nodes (stopSource st))" "active (nodes (stopSource st) ! k)" for k
    using stopSource_silent [OF a, of k] that by simp
  show "n < length (nodes (stopSource st))" if "sourceNodeRef (stopSource st) = Some n" for n
    using that by simp
qed



lemma updateTime_fields [simp]:
  "currentTime (updateTime st ident b now) =
     (if now - startTimeRef st \<le> duration b then now - startTimeRef st else currentTime st)"
  "pendingFrames (updateTime st ident b now) =
     (if now - startTimeRef st \<le> duration b then pendingFrames st @ [(nextFrame st, ident, b)]
      else pendingFrames st)"
  "animationFrameRef (updateTime st ident b now) =
     (if now - startTimeRef st \<le> duration b then nextFrame st else animationFrameRef st)"
  "nextFrame (updateTime st ident b now) =
     (if now - startTimeRef st \<le> duration b then nextFrame st + 1 else nextFrame st)"
  "trace (updateTime st ident b now) =
     trace st @ (if now - startTimeRef st \<le> duration b then [RequestFrame (nextFrame st)] else [])"
  "startTimeRef (updateTime st ident b now) = startTimeRef st"
  "pausedAtRef (updateTime st ident b now) = pausedAtRef st"
  "isPlaying (updateTime st ident b now) = isPlaying st"
  "nodes (updateTime st ident b now) = nodes st"
  "sourceNodeRef (updateTime st ident b now) = sourceNodeRef st"
  "currentlyPlayingId (updateTime st ident b now) = currentlyPlayingId st"
  "activeBufferRef (updateTime st ident b now) = activeBufferRef st"
  "durationState (updateTime st ident b now) = durationState st"
  "ctxSuspended (updateTime st ident b now) = ctxSuspended st"
  "uncaught (updateTime st ident b now) = uncaught st"
  by (simp_all add: updateTime_def Let_def)

lemma playAudio_fields [simp]:
  "startTimeRef (playAudio st ident b off startAt now) =
     (if 0 \<le> off then startAt - off else startTimeRef st)"
  "isPlaying (playAudio st ident b off startAt now) = (if 0 \<le> off then True else isPlaying st)"
  "sourceNodeRef (playAudio st ident b off startAt now) =
     (if 0 \<le> off then Some (length (nodes st)) else None)"
  "nodes (playAudio st ident b off startAt now) = nodes (stopSource st) @
     [\<lparr>node_track = ident, node_buffer = b, started = (0 \<le> off), stopped = False,
       connected = True\<rparr>]"
  "pausedAtRef (playAudio st ident b off startAt now) =
     (if currentlyPlayingId st \<noteq> Some ident then 0 else pausedAtRef st)"
  "currentTime (playAudio st ident b off startAt now) =
     (if 0 \<le> off \<and> now - (startAt - off) \<le> duration b then now - (startAt - off)
      else currentTime st)"
  "pendingFrames (playAudio st ident b off startAt now) =
     pendingFrames (stopSource st) @
     (if 0 \<le> off \<and> now - (startAt - off) \<le> duration b then [(nextFrame st, ident, b)] else [])"
  "animationFrameRef (playAudio st ident b off startAt now) =
     (if 0 \<le> off \<and> now - (startAt - off) \<le> duration b then nextFrame st
      else animationFrameRef st)"
  "nextFrame (playAudio st ident b off startAt now) =
     (if 0 \<le> off \<and> now - (startAt - off) \<le> duration b then nextFrame st + 1 else nextFrame st)"
  "currentlyPlayingId (playAudio st ident b off startAt now) = Some ident"
  "activeBufferRef (playAudio st ident b off startAt now) =
     (if currentlyPlayingId st \<noteq> Some ident then Some b else activeBufferRef st)"
  "durationState (playAudio st ident b off startAt now) =
     (if currentlyPlayingId st \<noteq> Some ident then duration b else durationState st)"
  "ctxSuspended (playAudio st ident b off startAt now) = False"
  "uncaught (playAudio st ident b off startAt now) =
     uncaught st @ (if off < 0 then [RangeError] else [])"
  by (simp_all add: playAudio_def Let_def stopSource_nodes not_less split: option.split)

lemma playAudio_trace:
  "trace (playAudio st ident b off startAt now) = trace st @
     (if ctxSuspended st then [Resume] else []) @
     (case sourceNodeRef st of Some n \<Rightarrow> [Stop n, Disconnect n] | None \<Rightarrow> []) @
     (if animationFrameRef st \<noteq> 0 then [CancelFrame (animationFrameRef st)] else []) @
     [Connect (length (nodes st))] @
     (if 0 \<le> off then [Start (length (nodes st)) startAt off] else []) @
     (if 0 \<le> off \<and> now - (startAt - off) \<le> duration b then [RequestFrame (nextFrame st)] else [])"
  by (simp add: playAudio_def Let_def stopSource_trace not_less split: option.split)

lemma updateTime_inv:
  assumes i: "inv st" and e: "pendingFrames st = []"
  shows "inv (updateTime st ident b now)"
proof (cases "now - startTimeRef st \<le> duration b")
  case False
  then have "updateTime st ident b now = st" by (simp add: updateTime_def)
  then show ?thesis using i by simp
next
  case True
  show ?thesis
  proof (rule invI)
    show "sourceNodeRef (updateTime st ident b now) = Some k"
      if "k < length (nodes (updateTime st ident b now))" "active (nodes (updateTime st ident b now) ! k)" for k
      using invD(1) [OF i, of k] that by simp
    show "n < length (nodes (updateTime st ident b now))"
      if "sourceNodeRef (updateTime st ident b now) = Some n" for n
      using invD(2) [OF i, of n] that by simp
    have "0 < nextFrame st" using invD(4) [OF i] by simp
    then show "pendingFrames (updateTime st ident b now) = [] \<or>
      (\<exists>cb. pendingFrames (updateTime st ident b now) = [(animationFrameRef (updateTime st ident b now), cb)] \<and>
            0 < animationFrameRef (updateTime st ident b now))"
      using True e by simp
    show "animationFrameRef (updateTime st ident b now) < nextFrame (updateTime st ident b now)"
      using True by simp
  qed
qed

lemma playAudio_inv:
  assumes i: "inv st"
  shows "inv (playAudio st ident b off startAt now)"
proof (rule invI)
  let ?st' = "playAudio st ident b off startAt now"
  note p = stopSource_pending [OF i]
  show "sourceNodeRef ?st' = Some k" if k: "k < length (nodes ?st')" and a: "active (nodes ?st' ! k)" for k
  proof -
    have "k = length (nodes st)"
    proof (rule ccontr)
      assume "k \<noteq> length (nodes st)"
      then have lt: "k < length (nodes st)" using k by simp
      then have "nodes ?st' ! k = nodes (stopSource st) ! k" by (simp add: nth_append)
      then show False using a stopSource_silent [OF i lt] by simp
    qed
    moreover from this a have "0 \<le> off" by (simp add: nth_append active_def)
    ultimately show ?thesis by simp
  qed
  show "n < length (nodes ?st')" if "sourceNodeRef ?st' = Some n" for n
    using that by (simp split: if_splits)
  have pf: "pendingFrames ?st' =
      (if 0 \<le> off \<and> now - (startAt - off) \<le> duration b then [(nextFrame st, ident, b)] else [])"
    by (simp only: playAudio_fields p append_Nil)
  have "0 < nextFrame st" using invD(4) [OF i] by simp
  then show "pendingFrames ?st' = [] \<or>
      (\<exists>cb. pendingFrames ?st' = [(animationFrameRef ?st', cb)] \<and> 0 < animationFrameRef ?st')"
    unfolding pf by simp
  show "animationFrameRef ?st' < nextFrame ?st'" using invD(4) [OF i] by simp
qed

lemma onended_inv: "inv st \<Longrightarrow> inv (onended st b now)"
  by (erule inv_cong) (simp_all add: onended_def Let_def)

lemma handlePause_inv: "inv st \<Longrightarrow> inv (handlePause st now)"
  by (rule inv_cong [of "stopSource st"]) (simp_all add: handlePause_def Let_def stopSource_inv)

lemma handleSeek_cases:
  "handleSeek st newTime startAt now = st\<lparr>currentTime := newTime, pausedAtRef := newTime\<rparr> \<or>
   (\<exists>ident buffer. isPlaying st \<and> currentlyPlayingId st = Some ident \<and> handleSeek st newTime startAt now =
      playAudio (st\<lparr>currentTime := newTime, pausedAtRef := newTime\<rparr>) ident buffer newTime startAt now)"
proof (cases "currentlyPlayingId st")
  case None
  then show ?thesis by (simp add: handleSeek_def)
next
  case (Some ident)
  note id = this
  show ?thesis
  proof (cases "activeBufferRef st")
    case None
    then show ?thesis using id by (simp add: handleSeek_def)
  next
    case (Some buffer)
    show ?thesis
    proof (cases "ident \<noteq> [] \<and> isPlaying st")
      case True
      then have "handleSeek st newTime startAt now =
          playAudio (st\<lparr>currentTime := newTime, pausedAtRef := newTime\<rparr>) ident buffer newTime startAt now"
        by (simp add: handleSeek_def id Some)
      then show ?thesis using True id by blast
    next
      case False
      then have "handleSeek st newTime startAt now = st\<lparr>currentTime := newTime, pausedAtRef := newTime\<rparr>"
        by (auto simp: handleSeek_def id Some)
      then show ?thesis by blast
    qed
  qed
qed

lemma handleSeek_inv:
  assumes "inv st"
  shows "inv (handleSeek st newTime startAt now)"
proof -
  have i1: "inv (st\<lparr>currentTime := newTime, pausedAtRef := newTime\<rparr>)"
    by (rule inv_cong [OF assms]) simp_all
  from handleSeek_cases [of st newTime startAt now] show ?thesis
  proof
    assume "handleSeek st newTime startAt now = st\<lparr>currentTime := newTime, pausedAtRef := newTime\<rparr>"
    then show ?thesis using i1 by (simp only:)
  next
    assume "\<exists>ident buffer. isPlaying st \<and> currentlyPlayingId st = Some ident \<and> handleSeek st newTime startAt now =
      playAudio (st\<lparr>currentTime := newTime, pausedAtRef := newTime\<rparr>) ident buffer newTime startAt now"
    then obtain ident buffer where "handleSeek st newTime startAt now =
      playAudio (st\<lparr>currentTime := newTime, pausedAtRef := newTime\<rparr>) ident buffer newTime startAt now"
      by blast
    then show ?thesis using playAudio_inv [OF i1] by (simp only:)
  qed
qed

lemma deleteHistoryItem_inv:
  assumes "inv st"
  shows "inv (deleteHistoryItem st ident)"
proof (cases "currentlyPlayingId st = Some ident")
  case True
  have "inv ((stopSource st)\<lparr>currentlyPlayingId := None, isPlaying := False, currentTime := 0,
           pausedAtRef := 0, activeBufferRef := None\<rparr>)"
    by (rule inv_cong [OF stopSource_inv [OF assms]]) simp_all
  then show ?thesis using True by (simp add: deleteHistoryItem_def)
next
  case False
  then show ?thesis using assms by (simp add: deleteHistoryItem_def)
qed

lemma clearHistory_inv: "inv st \<Longrightarrow> inv (clearHistory st)"
  unfolding clearHistory_def
  by (rule inv_cong [of "stopSource st"]) (simp_all add: stopSource_inv)

lemma animationFrame_pending:
  assumes "inv st" "pendingFrames st = [(h, ident, b)]"
  shows "animationFrame st h now = updateTime (st\<lparr>pendingFrames := []\<rparr>) ident b now"
  using assms(2) by (simp add: animationFrame_def)

lemma animationFrame_inv:
  assumes i: "inv st"
  shows "inv (animationFrame st h now)"
proof (cases "map_of (pendingFrames st) h")
  case None
  then have "animationFrame st h now = st" by (simp add: animationFrame_def)
  then show ?thesis using i by simp
next
  case (Some cb)
  obtain ident b where cb: "cb = (ident, b)" by (cases cb)
  from invD(3) [OF i] have pf: "pendingFrames st = [(h, ident, b)]"
  proof
    assume "pendingFrames st = []"
    then show ?thesis using Some by simp
  next
    assume "\<exists>cb. pendingFrames st = [(animationFrameRef st, cb)] \<and> 0 < animationFrameRef st"
    then obtain c where "pendingFrames st = [(animationFrameRef st, c)]" by blast
    then show ?thesis using Some cb by (simp split: if_splits)
  qed
  have i1: "inv (st\<lparr>pendingFrames := []\<rparr>)" by (rule inv_cong [OF i]) simp_all
  have "inv (updateTime (st\<lparr>pendingFrames := []\<rparr>) ident b now)"
    using i1 by (rule updateTime_inv) simp
  then show ?thesis using animationFrame_pending [OF i pf] by (simp only:)
qed

lemma onChange_inv: "inv st \<Longrightarrow> inv (onChange st v startAt now)"
  by (simp add: onChange_def handleSeek_inv)

lemma step_inv: "inv st \<Longrightarrow> inv (step st ev)"
  by (cases ev)
    (simp_all add: playAudio_inv handlePause_inv handleSeek_inv animationFrame_inv onended_inv
      deleteHistoryItem_inv clearHistory_inv onChange_inv split: option.split)

lemma run_inv: "inv st \<Longrightarrow> inv (run st evs)"
  unfolding run_def by (induction evs arbitrary: st) (simp_all add: step_inv)

lemma inv_single_active:
  assumes "inv st" "i < length (nodes st)" "j < length (nodes st)"
    "active (nodes st ! i)" "active (nodes st ! j)"
  shows "i = j"
proof -
  have "sourceNodeRef st = Some i" "sourceNodeRef st = Some j"
    using invD(1) [OF assms(1)] assms by blast+
  then show ?thesis by simp
qed

lemma duration_two_seconds [simp]: "duration two_seconds = 2"
  by (simp add: duration_def two_seconds_def)

lemma duration_five_seconds [simp]: "duration five_seconds = 5"
  by (simp add: duration_def five_seconds_def)

lemma handlePause_fields [simp]:
  "pausedAtRef (handlePause st now) = now - startTimeRef st"
  "isPlaying (handlePause st now) = False"
  "startTimeRef (handlePause st now) = startTimeRef st"
  "currentTime (handlePause st now) = currentTime st"
  "sourceNodeRef (handlePause st now) = None"
  "currentlyPlayingId (handlePause st now) = currentlyPlayingId st"
  "activeBufferRef (handlePause st now) = activeBufferRef st"
  "durationState (handlePause st now) = durationState st"
  by (simp_all add: handlePause_def Let_def)

lemma onended_cases:
  "now - startTimeRef st \<ge> duration buffer - 1 / 10 \<Longrightarrow>
     onended st buffer now = st\<lparr>isPlaying := False, currentTime := 0, pausedAtRef := 0\<rparr>"
  "now - startTimeRef st < duration buffer - 1 / 10 \<Longrightarrow> onended st buffer now = st"
  by (simp_all add: onended_def Let_def)

lemma handleSeek_fields:
  "pausedAtRef (handleSeek st newTime startAt now) = newTime"
  "currentTime (handleSeek st newTime startAt now) = newTime \<or>
   currentTime (handleSeek st newTime startAt now) = newTime + (now - startAt)"
  "\<not> isPlaying st \<Longrightarrow> currentTime (handleSeek st newTime startAt now) = newTime"
  "0 \<le> newTime \<or> \<not> isPlaying st \<Longrightarrow> uncaught (handleSeek st newTime startAt now) = uncaught st"
proof -
  let ?st1 = "st\<lparr>currentTime := newTime, pausedAtRef := newTime\<rparr>"
  from handleSeek_cases [of st newTime startAt now]
  have "pausedAtRef (handleSeek st newTime startAt now) = newTime \<and>
        (currentTime (handleSeek st newTime startAt now) = newTime \<or>
         currentTime (handleSeek st newTime startAt now) = newTime + (now - startAt)) \<and>
        (\<not> isPlaying st \<longrightarrow> currentTime (handleSeek st newTime startAt now) = newTime) \<and>
        (0 \<le> newTime \<or> \<not> isPlaying st \<longrightarrow>
           uncaught (handleSeek st newTime startAt now) = uncaught st)"
  proof
    assume "handleSeek st newTime startAt now = ?st1"
    then show ?thesis by simp
  next
    assume "\<exists>ident buffer. isPlaying st \<and> currentlyPlayingId st = Some ident \<and>
        handleSeek st newTime startAt now = playAudio ?st1 ident buffer newTime startAt now"
    then obtain ident buffer where id: "currentlyPlayingId st = Some ident" and pl: "isPlaying st"
      and h: "handleSeek st newTime startAt now = playAudio ?st1 ident buffer newTime startAt now"
      by blast
    show ?thesis unfolding h using id pl by simp
  qed
  then show "pausedAtRef (handleSeek st newTime startAt now) = newTime"
    "currentTime (handleSeek st newTime startAt now) = newTime \<or>
     currentTime (handleSeek st newTime startAt now) = newTime + (now - startAt)"
    "\<not> isPlaying st \<Longrightarrow> currentTime (handleSeek st newTime startAt now) = newTime"
    "0 \<le> newTime \<or> \<not> isPlaying st \<Longrightarrow> uncaught (handleSeek st newTime startAt now) = uncaught st"
    by blast+
qed

text \<open>
  A negative target reaches \<^verbatim>\<open>start\<close> when the seek restarts a playing track: the platform
  throws, after the target was stored and the running source stopped.
\<close>

lemma handleSeek_negative:
  assumes "currentlyPlayingId st = Some ident" "ident \<noteq> []" "activeBufferRef st = Some buffer"
    "isPlaying st" "newTime < 0"
  shows "uncaught (handleSeek st newTime startAt now) = uncaught st @ [RangeError]"
    and "currentTime (handleSeek st newTime startAt now) = newTime"
    and "pausedAtRef (handleSeek st newTime startAt now) = newTime"
    and "sourceNodeRef (handleSeek st newTime startAt now) = None"
  using assms by (simp_all add: handleSeek_def)

lemma ticks_anchor:
  assumes "startTimeRef st = a" "pendingFrames st = [(animationFrameRef st, ident, buffer)]"
    "\<forall>t\<in>set ts. t - a \<le> duration buffer"
  shows "startTimeRef (ticks st ts) = a \<and>
     currentTime (ticks st ts) = (if ts = [] then currentTime st else last ts - a) \<and>
     pendingFrames (ticks st ts) = [(animationFrameRef (ticks st ts), ident, buffer)]"
  using assms
proof (induction ts arbitrary: st)
  case Nil
  then show ?case by simp
next
  case (Cons t ts)
  let ?st1 = "animationFrame st (animationFrameRef st) t"
  have af: "?st1 = updateTime (st\<lparr>pendingFrames := []\<rparr>) ident buffer t"
    using Cons.prems(2) by (simp add: animationFrame_def)
  have le: "t - a \<le> duration buffer" using Cons.prems(3) by simp
  have 1: "startTimeRef ?st1 = a" unfolding af using Cons.prems(1) by simp
  have 2: "pendingFrames ?st1 = [(animationFrameRef ?st1, ident, buffer)]"
    unfolding af using Cons.prems(1) le by simp
  have 3: "\<forall>t\<in>set ts. t - a \<le> duration buffer" using Cons.prems(3) by simp
  have 4: "currentTime ?st1 = t - a" unfolding af using Cons.prems(1) le by simp
  from Cons.IH [OF 1 2 3] 4 show ?case by (cases ts) simp_all
qed

lemma playAudio_pending:
  assumes "inv st"
  shows "pendingFrames (playAudio st ident b off startAt now) =
     (if 0 \<le> off \<and> now - (startAt - off) \<le> duration b then [(nextFrame st, ident, b)]
      else [])"
  by (simp only: playAudio_fields stopSource_pending [OF assms] append_Nil)

lemma playAudio_previous_silent:
  assumes i: "inv st" and k: "k < length (nodes st)"
  shows "\<not> active (nodes (playAudio st ident b off startAt now) ! k)"
    and "sourceNodeRef st = Some k \<Longrightarrow>
      stopped (nodes (playAudio st ident b off startAt now) ! k) \<and>
      \<not> connected (nodes (playAudio st ident b off startAt now) ! k)"
proof -
  have n: "nodes (playAudio st ident b off startAt now) ! k = nodes (stopSource st) ! k"
    using k by (simp add: nth_append)
  show "\<not> active (nodes (playAudio st ident b off startAt now) ! k)"
    unfolding n by (rule stopSource_silent [OF i k])
  show "stopped (nodes (playAudio st ident b off startAt now) ! k) \<and>
      \<not> connected (nodes (playAudio st ident b off startAt now) ! k)" if "sourceNodeRef st = Some k"
    unfolding n using stopSource_previous [OF that k] .
qed

lemma playAudio_new_node:
  "nodes (playAudio st ident b off startAt now) ! length (nodes st) =
     \<lparr>node_track = ident, node_buffer = b, started = (0 \<le> off), stopped = False,
      connected = True\<rparr>"
  by (simp add: nth_append)

lemma play_example_frame:
  "animationFrame play_example 1 (21 / 2) =
     updateTime (play_example\<lparr>pendingFrames := []\<rparr>) ''a'' two_seconds (21 / 2)"
proof -
  have "pendingFrames play_example = [(1, ''a'', two_seconds)]"
    unfolding play_example_def using playAudio_pending [OF inv_initial, of "''a''" two_seconds 0 10 10]
    by (simp add: initial_def)
  then show ?thesis by (simp add: animationFrame_def)
qed

subsection \<open>One source at a time\<close>

text \<open>
  In every state reachable from the initial one, a play call leaves no source active
  but the new one, now and after any further events.  The new source is active when its
  start succeeds (\<open>0 \<le> offset\<close>).  The source held before is stopped and disconnected
  and the pending frame of its update loop is cancelled, in the trace before the new
  source is connected and started; a call for another track sets the paused offset to
  0; the only position update pending afterwards belongs to the new track and buffer.
\<close>

lemma playAudio_single_source:
  "(\<forall>later i j.
      i < length (nodes (run (playAudio (run initial evs) ident buffer offset startAt now) later)) \<and>
      j < length (nodes (run (playAudio (run initial evs) ident buffer offset startAt now) later)) \<and>
      active (nodes (run (playAudio (run initial evs) ident buffer offset startAt now) later) ! i) \<and>
      active (nodes (run (playAudio (run initial evs) ident buffer offset startAt now) later) ! j)
      \<longrightarrow> i = j) \<and>
   (0 \<le> offset \<longrightarrow>
      sourceNodeRef (playAudio (run initial evs) ident buffer offset startAt now) =
        Some (length (nodes (run initial evs))) \<and>
      active (nodes (playAudio (run initial evs) ident buffer offset startAt now) !
        length (nodes (run initial evs)))) \<and>
   node_track (nodes (playAudio (run initial evs) ident buffer offset startAt now) !
     length (nodes (run initial evs))) = ident \<and>
   (\<forall>k < length (nodes (run initial evs)).
      \<not> active (nodes (playAudio (run initial evs) ident buffer offset startAt now) ! k)) \<and>
   (\<forall>n. sourceNodeRef (run initial evs) = Some n \<longrightarrow>
      stopped (nodes (playAudio (run initial evs) ident buffer offset startAt now) ! n) \<and>
      \<not> connected (nodes (playAudio (run initial evs) ident buffer offset startAt now) ! n)) \<and>
   (currentlyPlayingId (run initial evs) \<noteq> Some ident \<longrightarrow>
      pausedAtRef (playAudio (run initial evs) ident buffer offset startAt now) = 0) \<and>
   trace (playAudio (run initial evs) ident buffer offset startAt now) =
     trace (run initial evs) @
     (if ctxSuspended (run initial evs) then [Resume] else []) @
     (case sourceNodeRef (run initial evs) of Some n \<Rightarrow> [Stop n, Disconnect n] | None \<Rightarrow> []) @
     (if animationFrameRef (run initial evs) \<noteq> 0
      then [CancelFrame (animationFrameRef (run initial evs))] else []) @
     [Connect (length (nodes (run initial evs)))] @
     (if 0 \<le> offset then [Start (length (nodes (run initial evs))) startAt offset] else []) @
     (if 0 \<le> offset \<and> now - (startAt - offset) \<le> duration buffer
      then [RequestFrame (nextFrame (run initial evs))] else []) \<and>
   (\<forall>(h, track, b) \<in> set (pendingFrames (playAudio (run initial evs) ident buffer offset startAt now)).
      track = ident \<and> b = buffer)"
proof -
  let ?st = "run initial evs"
  let ?st' = "playAudio ?st ident buffer offset startAt now"
  have i: "inv ?st" by (rule run_inv [OF inv_initial])
  have i': "inv ?st'" by (rule playAudio_inv [OF i])
  have 1: "\<forall>later i j.
      i < length (nodes (run ?st' later)) \<and> j < length (nodes (run ?st' later)) \<and>
      active (nodes (run ?st' later) ! i) \<and> active (nodes (run ?st' later) ! j) \<longrightarrow> i = j"
    using inv_single_active [OF run_inv [OF i']] by blast
  have 2: "0 \<le> offset \<longrightarrow> sourceNodeRef ?st' = Some (length (nodes ?st)) \<and>
      active (nodes ?st' ! length (nodes ?st))"
    unfolding playAudio_new_node by (simp add: active_def)
  have 3: "node_track (nodes ?st' ! length (nodes ?st)) = ident"
    unfolding playAudio_new_node by simp
  have 4: "\<forall>k < length (nodes ?st). \<not> active (nodes ?st' ! k)"
    using playAudio_previous_silent(1) [OF i] by blast
  have 5: "\<forall>n. sourceNodeRef ?st = Some n \<longrightarrow>
      stopped (nodes ?st' ! n) \<and> \<not> connected (nodes ?st' ! n)"
    using playAudio_previous_silent(2) [OF i] invD(2) [OF i] by blast
  have 6: "currentlyPlayingId ?st \<noteq> Some ident \<longrightarrow> pausedAtRef ?st' = 0" by simp
  note 7 = playAudio_trace [of ?st ident buffer offset startAt now]
  have 8: "\<forall>(h, track, b) \<in> set (pendingFrames ?st'). track = ident \<and> b = buffer"
    unfolding playAudio_pending [OF i] by simp
  show ?thesis using 1 2 3 4 5 6 7 8 by (intro conjI)
qed

lemma playAudio_single_source_example:
  "(0::real) \<le> 0 \<and>
   currentlyPlayingId (run initial [Play ''a'' two_seconds 0 10 10]) \<noteq> Some ''b'' \<and>
   sourceNodeRef (run initial [Play ''a'' two_seconds 0 10 10]) = Some 0 \<and>
   stopped (nodes (playAudio (run initial [Play ''a'' two_seconds 0 10 10]) ''b'' five_seconds 0 11 11) ! 0) \<and>
   \<not> connected (nodes (playAudio (run initial [Play ''a'' two_seconds 0 10 10]) ''b'' five_seconds 0 11 11) ! 0) \<and>
   active (nodes (playAudio (run initial [Play ''a'' two_seconds 0 10 10]) ''b'' five_seconds 0 11 11) ! 1) \<and>
   pausedAtRef (playAudio (run initial [Play ''a'' two_seconds 0 10 10]) ''b'' five_seconds 0 11 11) = 0 \<and>
   trace (playAudio (run initial [Play ''a'' two_seconds 0 10 10]) ''b'' five_seconds 0 11 11) =
     [Connect 0, Start 0 10 0, RequestFrame 1, Stop 0, Disconnect 0, CancelFrame 1,
      Connect 1, Start 1 11 0, RequestFrame 2]"
proof -
  let ?st = "run initial [Play ''a'' two_seconds 0 10 10]"
  have s: "?st = playAudio initial ''a'' two_seconds 0 10 10" by (simp add: run_def)
  have f: "currentlyPlayingId ?st \<noteq> Some ''b''" "sourceNodeRef ?st = Some 0"
    "length (nodes ?st) = 1" "ctxSuspended ?st = False" "animationFrameRef ?st = 1"
    "nextFrame ?st = 2" "trace ?st = [Connect 0, Start 0 10 0, RequestFrame 1]"
    unfolding s by (simp_all add: initial_def playAudio_trace)
  have z: "(0::real) \<le> 0" by simp
  note t = playAudio_single_source [where evs = "[Play ''a'' two_seconds 0 10 10]" and ident = "''b''"
      and buffer = five_seconds and offset = 0 and startAt = 11 and now = 11]
  note t2 = t [THEN conjunct2]
  note t5 = t2 [THEN conjunct2, THEN conjunct2, THEN conjunct2]
  note t6 = t5 [THEN conjunct2]
  note t7 = t6 [THEN conjunct2]
  have a: "active (nodes (playAudio ?st ''b'' five_seconds 0 11 11) ! 1)"
    using t2 [THEN conjunct1, THEN mp, OF z, THEN conjunct2] by (simp only: f(3))
  have b: "stopped (nodes (playAudio ?st ''b'' five_seconds 0 11 11) ! 0) \<and>
      \<not> connected (nodes (playAudio ?st ''b'' five_seconds 0 11 11) ! 0)"
    using t5 [THEN conjunct1] f(2) by blast
  have c: "pausedAtRef (playAudio ?st ''b'' five_seconds 0 11 11) = 0"
    using t6 [THEN conjunct1] f(1) by blast
  have d: "trace (playAudio ?st ''b'' five_seconds 0 11 11) =
     [Connect 0, Start 0 10 0, RequestFrame 1, Stop 0, Disconnect 0, CancelFrame 1,
      Connect 1, Start 1 11 0, RequestFrame 2]"
    unfolding t7 [THEN conjunct1] f by simp
  show ?thesis using z f(1,2) a b c d by (intro conjI) blast+
qed

subsection \<open>The seek slider\<close>

lemma duration_nonneg: "0 \<le> duration b"
  by (simp add: duration_def)

lemma slider_value_bounds:
  assumes "0 \<le> durationState st"
  shows "0 \<le> slider_value st v" and "slider_value st v \<le> durationState st"
  using assms by (auto simp: slider_value_def range_value_def Let_def)

lemma slider_value_low:
  assumes "0 \<le> durationState st" and "v \<le> 0"
  shows "slider_value st v = 0"
proof -
  have "(if v < 0 then 0 else if 0 \<le> durationState st \<and> durationState st < v
          then durationState st else v) = 0"
    using assms by simp
  then show ?thesis using assms by (simp add: slider_value_def range_value_def Let_def)
qed

lemma slider_value_high:
  assumes d: "0 \<le> durationState st" and v: "durationState st \<le> v"
  shows "slider_value st v = real_of_int \<lfloor>durationState st * 100\<rfloor> / 100"
proof -
  define D where "D = durationState st"
  define k where "k = \<lfloor>D * 100\<rfloor>"
  define q where "q = real_of_int k / 100"
  have ir: "(if v < 0 then 0 else if 0 \<le> D \<and> D < v then D else v) = D"
    using d v by (simp add: D_def)
  have k0: "0 \<le> k" using d by (simp add: k_def D_def)
  have kl: "real_of_int k \<le> D * 100" and ku: "D * 100 < real_of_int k + 1"
    unfolding k_def by linarith+
  have q: "0 \<le> q" "q \<le> D" "D < q + 1 / 100" using k0 kl ku by (simp_all add: q_def)
  have r: "range_value 0 D (1 / 100) v =
      (let nearest = real_of_int \<lfloor>D * 100 + 1 / 2\<rfloor> / 100 in
       if 0 \<le> nearest \<and> (D < 0 \<or> nearest \<le> D) then nearest
       else if 0 \<le> nearest - 1 / 100 \<and> (D < 0 \<or> nearest - 1 / 100 \<le> D) then nearest - 1 / 100
       else D)"
    by (simp add: range_value_def Let_def ir)
  have cases: "\<lfloor>D * 100 + 1 / 2\<rfloor> = k \<or> \<lfloor>D * 100 + 1 / 2\<rfloor> = k + 1"
    using kl ku by linarith
  have "range_value 0 D (1 / 100) v = q"
  proof (cases "\<lfloor>D * 100 + 1 / 2\<rfloor> = k")
    case True
    have e: "real_of_int \<lfloor>D * 100 + 1 / 2\<rfloor> / 100 = q" by (simp add: True q_def)
    show ?thesis unfolding r e Let_def using q by simp
  next
    case False
    then have f: "\<lfloor>D * 100 + 1 / 2\<rfloor> = k + 1" using cases by blast
    have e: "real_of_int \<lfloor>D * 100 + 1 / 2\<rfloor> / 100 = q + 1 / 100"
      by (simp add: f q_def add_divide_distrib)
    show ?thesis unfolding r e Let_def using q by simp
  qed
  then show ?thesis by (simp add: slider_value_def D_def k_def q_def)
qed

lemma slider_value_near:
  assumes d: "0 \<le> durationState st" and v: "durationState st \<le> v"
  shows "durationState st - 1 / 100 < slider_value st v"
  unfolding slider_value_high [OF assms] by linarith


lemma duration_inv_initial: "duration_inv initial"
  by (simp add: duration_inv_def initial_def)

lemma playAudio_duration_inv:
  "duration_inv st \<Longrightarrow> duration_inv (playAudio st ident b off startAt now)"
  by (simp add: duration_inv_def duration_nonneg)

lemma handleSeek_duration:
  "durationState (handleSeek st newTime startAt now) = durationState st"
  "activeBufferRef (handleSeek st newTime startAt now) = activeBufferRef st"
  using handleSeek_cases [of st newTime startAt now] by auto

lemma animationFrame_duration:
  "durationState (animationFrame st h now) = durationState st"
  "activeBufferRef (animationFrame st h now) = activeBufferRef st"
  by (simp_all add: animationFrame_def split: option.split)

lemma onended_duration:
  "durationState (onended st b now) = durationState st"
  "activeBufferRef (onended st b now) = activeBufferRef st"
  by (simp_all add: onended_def Let_def)

lemma step_duration_inv: "duration_inv st \<Longrightarrow> duration_inv (step st ev)"
proof (cases ev)
  case (Play ident b off startAt now)
  assume "duration_inv st"
  then show ?thesis unfolding Play by (simp add: playAudio_duration_inv)
next
  case (Slide v startAt now)
  assume "duration_inv st"
  then show ?thesis unfolding Slide
    by (simp add: duration_inv_def onChange_def handleSeek_duration split: option.split)
qed (simp_all add: duration_inv_def handleSeek_duration animationFrame_duration onended_duration
    deleteHistoryItem_def clearHistory_def)

lemma run_duration_inv: "duration_inv st \<Longrightarrow> duration_inv (run st evs)"
  unfolding run_def by (induction evs arbitrary: st) (simp_all add: step_duration_inv)

lemma onChange_fields:
  assumes i: "duration_inv st"
  shows "pausedAtRef (onChange st v startAt now) = slider_value st v"
    and "currentTime (onChange st v startAt now) = slider_value st v \<or>
      isPlaying st \<and> currentTime (onChange st v startAt now) = slider_value st v + (now - startAt)"
    and "startAt \<le> now \<Longrightarrow> 0 \<le> currentTime (onChange st v startAt now) \<and>
      currentTime (onChange st v startAt now) \<le> durationState st"
    and "\<not> isPlaying st \<or> now = startAt \<Longrightarrow> currentTime (onChange st v startAt now) = slider_value st v"
    and "uncaught (onChange st v startAt now) = uncaught st"
proof -
  define t where "t = slider_value st v"
  let ?st1 = "st\<lparr>currentTime := t, pausedAtRef := t\<rparr>"
  have d: "0 \<le> durationState st" using i by (simp add: duration_inv_def)
  have t: "0 \<le> t" "t \<le> durationState st"
    unfolding t_def using slider_value_bounds [OF d] by blast+
  have "pausedAtRef (handleSeek st t startAt now) = t \<and>
    (currentTime (handleSeek st t startAt now) = t \<or>
      isPlaying st \<and> currentTime (handleSeek st t startAt now) = t + (now - startAt)) \<and>
    (startAt \<le> now \<longrightarrow> 0 \<le> currentTime (handleSeek st t startAt now) \<and>
      currentTime (handleSeek st t startAt now) \<le> durationState st) \<and>
    (\<not> isPlaying st \<or> now = startAt \<longrightarrow> currentTime (handleSeek st t startAt now) = t) \<and>
    uncaught (handleSeek st t startAt now) = uncaught st"
  proof (cases "\<exists>ident buffer. currentlyPlayingId st = Some ident \<and> activeBufferRef st = Some buffer \<and>
      ident \<noteq> [] \<and> isPlaying st")
    case True
    then obtain ident buffer where id: "currentlyPlayingId st = Some ident"
      and b: "activeBufferRef st = Some buffer" and pl: "isPlaying st" and ne: "ident \<noteq> []"
      by blast
    have h: "handleSeek st t startAt now = playAudio ?st1 ident buffer t startAt now"
      using id b pl ne by (simp add: handleSeek_def)
    have db: "duration buffer = durationState st" using i b by (simp add: duration_inv_def)
    show ?thesis unfolding h using id pl t db by auto
  next
    case False
    then have h: "handleSeek st t startAt now = ?st1"
      by (cases "currentlyPlayingId st"; cases "activeBufferRef st")
        (auto simp: handleSeek_def Let_def)
    show ?thesis unfolding h using t by simp
  qed
  then show "pausedAtRef (onChange st v startAt now) = slider_value st v"
    and "currentTime (onChange st v startAt now) = slider_value st v \<or>
      isPlaying st \<and> currentTime (onChange st v startAt now) = slider_value st v + (now - startAt)"
    and "startAt \<le> now \<Longrightarrow> 0 \<le> currentTime (onChange st v startAt now) \<and>
      currentTime (onChange st v startAt now) \<le> durationState st"
    and "\<not> isPlaying st \<or> now = startAt \<Longrightarrow> currentTime (onChange st v startAt now) = slider_value st v"
    and "uncaught (onChange st v startAt now) = uncaught st"
    unfolding onChange_def t_def by blast+
qed


lemma duration_short_clip [simp]: "duration short_clip = 1 / 20"
  by (simp add: duration_def short_clip_def)

lemma run_paused_events: "run initial paused_events = pause_example"
  by (simp add: run_def paused_events_def pause_example_def play_example_def)

lemma pause_example_fields:
  "durationState pause_example = 2" "isPlaying pause_example = False"
  "uncaught pause_example = []"
proof -
  show "durationState pause_example = 2" "isPlaying pause_example = False"
    unfolding pause_example_def play_example_frame by (simp_all add: play_example_def initial_def)
  show "uncaught pause_example = []"
    unfolding pause_example_def play_example_frame
    by (simp add: handlePause_def Let_def play_example_def initial_def)
qed

lemma switch_example_states:
  "currentlyPlayingId (run initial switch_example) = Some ''b''"
  "sourceNodeRef (run initial switch_example) = Some 1"
  "active (nodes (run initial switch_example) ! 1)"
  "node_track (nodes (run initial switch_example) ! 1) = ''b''"
  "\<not> active (nodes (run initial switch_example) ! 0)"
  "isPlaying (run initial (butlast switch_example))"
  "currentTime (run initial (butlast switch_example)) = 1 / 100"
  "\<not> isPlaying (run initial switch_example)"
  "currentTime (run initial switch_example) = 0"
proof -
  define s1 where "s1 = playAudio initial ''a'' short_clip 0 10 10"
  define s2 where "s2 = playAudio s1 ''b'' two_seconds 0 (1002 / 100) (1002 / 100)"
  define s3 where "s3 = animationFrame s2 2 (1003 / 100)"
  define s4 where "s4 = onended s3 short_clip (1004 / 100)"
  have i1: "inv s1" unfolding s1_def by (rule playAudio_inv [OF inv_initial])
  have f1: "nextFrame s1 = 2" "length (nodes s1) = 1" "currentlyPlayingId s1 = Some ''a''"
    "sourceNodeRef s1 = Some 0"
    "nodes s1 = [\<lparr>node_track = ''a'', node_buffer = short_clip, started = True, stopped = False,
        connected = True\<rparr>]"
    unfolding s1_def by (simp_all add: initial_def stopSource_def)
  have n2: "nodes s2 =
      [\<lparr>node_track = ''a'', node_buffer = short_clip, started = True, stopped = True,
        connected = False\<rparr>,
       \<lparr>node_track = ''b'', node_buffer = two_seconds, started = True, stopped = False,
        connected = True\<rparr>]"
    unfolding s2_def by (simp add: stopSource_nodes f1)
  have p2: "pendingFrames s2 = [(2, ''b'', two_seconds)]"
    unfolding s2_def using playAudio_pending [OF i1, of "''b''" two_seconds 0 "1002 / 100" "1002 / 100"]
    by (simp add: f1)
  have f2: "startTimeRef s2 = 1002 / 100" "isPlaying s2" "sourceNodeRef s2 = Some 1"
    "currentlyPlayingId s2 = Some ''b''"
    unfolding s2_def by (simp_all add: f1)
  have i2: "inv s2" unfolding s2_def by (rule playAudio_inv [OF i1])
  have a3: "s3 = updateTime (s2\<lparr>pendingFrames := []\<rparr>) ''b'' two_seconds (1003 / 100)"
    unfolding s3_def by (rule animationFrame_pending [OF i2 p2])
  have f3: "currentTime s3 = 1 / 100" "isPlaying s3" "nodes s3 = nodes s2"
    "startTimeRef s3 = 1002 / 100" "sourceNodeRef s3 = Some 1" "currentlyPlayingId s3 = Some ''b''"
    unfolding a3 by (simp_all add: f2)
  have e: "1004 / 100 - startTimeRef s3 \<ge> duration short_clip - 1 / 10" by (simp add: f3)
  have a4: "s4 = s3\<lparr>isPlaying := False, currentTime := 0, pausedAtRef := 0\<rparr>"
    unfolding s4_def by (rule onended_cases(1) [OF e])
  have r3: "run initial (butlast switch_example) = s3"
    by (simp add: run_def switch_example_def s1_def s2_def s3_def)
  have "run initial switch_example = step (run initial (butlast switch_example)) (Ended 0 (1004 / 100))"
    by (simp add: run_def switch_example_def)
  then have r4: "run initial switch_example = s4"
    unfolding r3 by (simp add: s4_def f3(3) n2)
  show "currentlyPlayingId (run initial switch_example) = Some ''b''"
    "sourceNodeRef (run initial switch_example) = Some 1"
    "active (nodes (run initial switch_example) ! 1)"
    "node_track (nodes (run initial switch_example) ! 1) = ''b''"
    "\<not> active (nodes (run initial switch_example) ! 0)"
    "\<not> isPlaying (run initial switch_example)"
    "currentTime (run initial switch_example) = 0"
    unfolding r4 a4 by (simp_all add: f3 n2 active_def)
  show "isPlaying (run initial (butlast switch_example))"
    "currentTime (run initial (butlast switch_example)) = 1 / 100"
    unfolding r3 by (simp_all add: f3)
qed

section \<open>Claims about the encoder\<close>

text \<open>
  Claim C5.  For every buffer the encoder emits the 44-byte header of the specification:
  \<open>RIFF\<close>, \<open>36 + frameCount * channelCount * 2\<close>, \<open>WAVE\<close>, \<open>fmt \<close>, 16, 1, the channel
  count, the sample rate, \<open>sampleRate * channelCount * 2\<close>, \<open>channelCount * 2\<close>, 16, \<open>data\<close>
  and \<open>frameCount * channelCount * 2\<close>, each number little-endian in its two or four
  bytes (so modulo \<open>2^16\<close> or \<open>2^32\<close>, which is the number itself for every buffer a
  browser can allocate).  A 1-channel, 24000 Hz, 100-frame buffer gives a 244-byte file
  whose bytes 4 to 7 hold 236 and whose bytes 40 to 43 hold 200.
\<close>

theorem bufferToWav_header:
  "\<exists>out. bufferToWav buffer = Inr out \<and>
     bytes_at out 0 4 = ascii ''RIFF'' \<and>
     le_value (bytes_at out 4 4) = (36 + length_frames buffer * numberOfChannels buffer * 2) mod 2 ^ 32 \<and>
     bytes_at out 8 4 = ascii ''WAVE'' \<and>
     bytes_at out 12 4 = ascii ''fmt '' \<and>
     le_value (bytes_at out 16 4) = 16 \<and>
     le_value (bytes_at out 20 2) = 1 \<and>
     le_value (bytes_at out 22 2) = numberOfChannels buffer mod 2 ^ 16 \<and>
     le_value (bytes_at out 24 4) = sampleRate buffer mod 2 ^ 32 \<and>
     le_value (bytes_at out 28 4) = (sampleRate buffer * numberOfChannels buffer * 2) mod 2 ^ 32 \<and>
     le_value (bytes_at out 32 2) = (numberOfChannels buffer * 2) mod 2 ^ 16 \<and>
     le_value (bytes_at out 34 2) = 16 \<and>
     bytes_at out 36 4 = ascii ''data'' \<and>
     le_value (bytes_at out 40 4) = (length_frames buffer * numberOfChannels buffer * 2) mod 2 ^ 32 \<and>
     (length_frames buffer = 100 \<and> numberOfChannels buffer = 1 \<and> sampleRate buffer = 24000 \<longrightarrow>
        length out = 244 \<and> bytes_at out 4 4 = [236, 0, 0, 0] \<and> bytes_at out 40 4 = [200, 0, 0, 0])"
proof -
  let ?out = "wav_header buffer @ pcm_payload buffer"
  have ex: "le_bytes 4 236 = [236, 0, 0, 0]" "le_bytes 4 200 = [200, 0, 0, 0]"
    by (simp_all add: le_bytes_4)
  show ?thesis
    by (rule exI [of _ ?out])
      (simp add: bufferToWav_bytes bytes_at_header le_value_le_bytes ex)
qed

theorem bufferToWav_header_witness:
  "length_frames wav_example = 100 \<and> numberOfChannels wav_example = 1 \<and>
   sampleRate wav_example = 24000 \<and>
   (\<exists>out. bufferToWav wav_example = Inr out \<and> length out = 244 \<and>
      bytes_at out 4 4 = [236, 0, 0, 0] \<and> bytes_at out 40 4 = [200, 0, 0, 0])"
proof -
  have h: "length_frames wav_example = 100 \<and> numberOfChannels wav_example = 1 \<and>
      sampleRate wav_example = 24000"
    by (simp add: wav_example_def numberOfChannels_def)
  from bufferToWav_header [of wav_example] h show ?thesis by blast
qed

text \<open>
  Claim C10.  The encoder never fails: for every buffer, whatever its samples (finite,
  infinite or NaN) and also with no frames, it returns exactly
  \<open>44 + frameCount * channelCount * 2\<close> bytes; every value it writes lies in
  \<open>[-32768, 32767]\<close>; a buffer with no frames gives the 44 header bytes alone.  The bytes
  after the header are the written values, two bytes each, frame by frame.
\<close>

theorem bufferToWav_total:
  "(\<exists>out. bufferToWav buffer = Inr out \<and>
      out = wav_header buffer @ pcm_payload buffer \<and>
      length out = 44 + length_frames buffer * numberOfChannels buffer * 2 \<and>
      (length_frames buffer = 0 \<longrightarrow> out = wav_header buffer \<and> length out = 44)) \<and>
   (\<forall>s. - 32768 \<le> convert_sample s \<and> convert_sample s \<le> 32767)"
proof -
  have "length_frames buffer = 0 \<Longrightarrow> pcm_payload buffer = []"
    by (simp add: pcm_payload_def payload_bytes_def)
  then show ?thesis
    by (auto simp: bufferToWav_bytes convert_sample_range)
qed

theorem bufferToWav_total_witness:
  "length_frames empty_example = 0 \<and> bufferToWav empty_example = Inr (wav_header empty_example) \<and>
   length (wav_header empty_example) = 44 \<and>
   convert_sample (Fin 3) = 32767 \<and> convert_sample NaN = 0"
proof -
  have h: "length_frames empty_example = 0" by (simp add: empty_example_def)
  have c: "convert_sample (Fin 3) = 32767" "convert_sample NaN = 0"
    by (simp_all add: convert_sample_def clamp_sample_def scale_sample_def ToInt32_def)
  from bufferToWav_total [of empty_example] h c show ?thesis by auto
qed

text \<open>
  Claim C2, as amended.  The encoder clamps the sample to \<open>[-1, 1]\<close>.  A clamped sample
  \<open>c \<ge> 0\<close> is written as \<open>floor (c * 32767)\<close>, as the specification says.  A clamped
  sample \<open>c < -1/2\<close> is written as \<open>c * 32768\<close> truncated towards zero, which for a
  negative product is its ceiling and not its floor.  (The source tests
  \<open>0.5 + sample < 0\<close>; what it writes for \<open>-1/2 \<le> c < 0\<close> is \<open>convert_sample_half_open\<close>
  and is not part of the amended claim.)
\<close>

theorem convert_sample_truncates:
  "clamp_sample (Fin s) = Fin (max (- 1) (min 1 s)) \<and>
   (0 \<le> max (- 1) (min 1 s) \<longrightarrow> convert_sample (Fin s) = \<lfloor>max (- 1) (min 1 s) * 32767\<rfloor>) \<and>
   (max (- 1) (min 1 s) < - (1 / 2) \<longrightarrow> convert_sample (Fin s) = \<lceil>max (- 1) (min 1 s) * 32768\<rceil>)"
  unfolding convert_sample_Fin clamp_sample_Fin Let_def by auto

theorem convert_sample_truncates_witness:
  "(0::real) \<le> max (- 1) (min 1 (1 / 4)) \<and> convert_sample (Fin (1 / 4)) = 8191 \<and>
   max (- 1) (min 1 (- 3 / 4 :: real)) < - (1 / 2) \<and> convert_sample (Fin (- 3 / 4)) = - 24576"
  using convert_sample_truncates [of "1 / 4"] convert_sample_truncates [of "- 3 / 4"]
  by simp

text \<open>
  Claim C2 as stated fails at the sample \<open>-49153/65536\<close> (a \<^verbatim>\<open>Float32Array\<close> value):
  \<open>s * 32768 = -24576.5\<close>, the encoder writes \<open>-24576\<close>, the floor is \<open>-24577\<close>.
\<close>

theorem quantize_spec_counterexample:
  "convert_sample (Fin (- 49153 / 65536)) = - 24576 \<and> quantize_spec (- 49153 / 65536) = - 24577"
  by (simp add: convert_sample_def clamp_sample_def scale_sample_def ToInt32_def quantize_spec_def)



section \<open>Claims about the decoder and the round trip\<close>

text \<open>
  Claim C3.  On a channel count and sample rate the context supports, the decoder
  returns a buffer for every byte sequence that holds a whole, positive number of
  frames, with that many frames on each channel.  Whenever the decoder returns a buffer,
  for any byte sequence, the sample at frame \<open>i\<close> of channel \<open>c\<close> of that buffer is the
  signed 16-bit little-endian integer read at byte offset \<open>(i * channelCount + c) * 2\<close>
  of the input, divided by 32768 (and that offset lies inside the input).
\<close>

theorem decodeAudioData_samples:
  "(supports ctx nc rate \<and> nc dvd length data div 2 \<and> 0 < length data div 2 \<longrightarrow>
      (\<exists>buffer. decodeAudioData data ctx rate nc = Inr buffer \<and>
         numberOfChannels buffer = nc \<and> length_frames buffer = length data div 2 div nc)) \<and>
   (\<forall>buffer c i.
      decodeAudioData data ctx rate nc = Inr buffer \<and>
      c < numberOfChannels buffer \<and> i < length_frames buffer \<longrightarrow>
        (i * nc + c) * 2 + 2 \<le> length data \<and>
        typed_get (getChannelData buffer c) i =
          Fin (real_of_int (int16_at data ((i * nc + c) * 2)) / 32768))"
proof (intro conjI impI allI)
  assume h: "supports ctx nc rate \<and> nc dvd length data div 2 \<and> 0 < length data div 2"
  then obtain buffer where b: "decodeAudioData data ctx rate nc = Inr buffer"
    using decodeAudioData_ok [of ctx nc rate data] by blast
  from decodeAudioData_Inr [OF b]
  have "numberOfChannels buffer = nc" "length_frames buffer = length data div 2 div nc"
    by blast+
  with b show "\<exists>buffer. decodeAudioData data ctx rate nc = Inr buffer \<and>
      numberOfChannels buffer = nc \<and> length_frames buffer = length data div 2 div nc"
    by blast
next
  fix buffer c i
  assume h: "decodeAudioData data ctx rate nc = Inr buffer \<and>
      c < numberOfChannels buffer \<and> i < length_frames buffer"
  then have a: "decodeAudioData data ctx rate nc = Inr buffer"
    and c: "c < numberOfChannels buffer" and i: "i < length_frames buffer"
    by blast+
  note r = decodeAudioData_Inr [OF a]
  from r c have c': "c < nc" by simp
  with r have l: "length (channelData buffer ! c) = length_frames buffer"
    and v: "(i * nc + c) * 2 + 2 \<le> length data \<and> channelData buffer ! c ! i = decoded data nc c i"
    using i by blast+
  from v show "(i * nc + c) * 2 + 2 \<le> length data" by blast
  show "typed_get (getChannelData buffer c) i =
      Fin (real_of_int (int16_at data ((i * nc + c) * 2)) / 32768)"
    using l v i by (simp add: typed_get_def getChannelData_def decoded_def)
qed

theorem decodeAudioData_samples_witness:
  "supports standard_context 2 24000 \<and>
   2 dvd length [1, 0, 2, 0, 3, 0, 4, 0 :: u8] div 2 \<and>
   0 < length [1, 0, 2, 0, 3, 0, 4, 0 :: u8] div 2 \<and>
   decodeAudioData [1, 0, 2, 0, 3, 0, 4, 0] standard_context 24000 2 =
     Inr \<lparr>sampleRate = 24000, length_frames = 2,
          channelData = [[Fin (1 / 32768), Fin (3 / 32768)], [Fin (2 / 32768), Fin (4 / 32768)]]\<rparr> \<and>
   (\<exists>buffer. decodeAudioData [1, 0, 2, 0, 3, 0, 4, 0] standard_context 24000 2 = Inr buffer \<and>
      numberOfChannels buffer = 2 \<and> length_frames buffer = 2) \<and>
   int16_at [1, 0, 2, 0, 3, 0, 4, 0] ((1 * 2 + 1) * 2) = 4 \<and>
   typed_get (getChannelData \<lparr>sampleRate = 24000, length_frames = 2,
          channelData = [[Fin (1 / 32768), Fin (3 / 32768)], [Fin (2 / 32768), Fin (4 / 32768)]]\<rparr> 1) 1 =
     Fin (real_of_int (int16_at [1, 0, 2, 0, 3, 0, 4, 0] ((1 * 2 + 1) * 2)) / 32768)"
proof -
  let ?d = "[1, 0, 2, 0, 3, 0, 4, 0] :: u8 list"
  let ?b = "\<lparr>sampleRate = 24000, length_frames = 2,
          channelData = [[Fin (1 / 32768), Fin (3 / 32768)], [Fin (2 / 32768), Fin (4 / 32768)]]\<rparr>"
  have v: "int16_at ?d ((1 * 2 + 1) * 2) = 4"
    by (simp add: int16_at_def bytes_at_2)
  have h: "supports standard_context 2 24000 \<and> 2 dvd length ?d div 2 \<and> 0 < length ?d div 2"
    by (simp add: supports_def standard_context_def)
  note t = decodeAudioData_samples [where data = ?d and ctx = standard_context and rate = 24000
      and nc = 2]
  have l: "length ?d div 2 div 2 = 2" by simp
  have e: "\<exists>buffer. decodeAudioData ?d standard_context 24000 2 = Inr buffer \<and>
      numberOfChannels buffer = 2 \<and> length_frames buffer = 2"
    using t [THEN conjunct1, THEN mp, OF h] unfolding l .
  have k: "decodeAudioData ?d standard_context 24000 2 = Inr ?b \<and>
      1 < numberOfChannels ?b \<and> 1 < length_frames ?b"
    using two_by_two by (simp add: numberOfChannels_def)
  from t [THEN conjunct2, rule_format, OF k]
  have g: "typed_get (getChannelData ?b 1) 1 =
      Fin (real_of_int (int16_at ?d ((1 * 2 + 1) * 2)) / 32768)"
    by blast
  show ?thesis using h two_by_two e v g by (intro conjI) blast+
qed

text \<open>
  Claim C4, as amended.  For every channel count and sample rate the context supports
  and every byte sequence that holds a whole, positive number of frames (the number of
  16-bit samples, \<open>length div 2\<close>, is a positive multiple of the channel count; with one
  channel: every sequence of at least two bytes), the decoder returns a buffer of
  \<open>floor (length / 2 / channelCount)\<close> frames, an odd trailing byte being dropped; five
  bytes on one channel give two frames.  A byte sequence without a whole frame is not
  decoded: \<^verbatim>\<open>createBuffer\<close> throws NotSupportedError for the length 0.
\<close>

theorem decodeAudioData_frameCount:
  "(supports ctx nc rate \<and> nc dvd length data div 2 \<and> 0 < length data div 2 \<longrightarrow>
      (\<exists>buffer. decodeAudioData data ctx rate nc = Inr buffer \<and>
         length_frames buffer = nat \<lfloor>real (length data) / 2 / real nc\<rfloor> \<and>
         numberOfChannels buffer = nc \<and>
         (length data = 5 \<and> nc = 1 \<longrightarrow> length_frames buffer = 2))) \<and>
   (length data div 2 < nc \<longrightarrow> decodeAudioData data ctx rate nc = Inl NotSupportedError)"
proof (intro conjI impI)
  assume h: "supports ctx nc rate \<and> nc dvd length data div 2 \<and> 0 < length data div 2"
  then obtain buffer where b: "decodeAudioData data ctx rate nc = Inr buffer"
    using decodeAudioData_ok [of ctx nc rate data] by blast
  note r = decodeAudioData_Inr [OF b]
  have "length_frames buffer = length data div 2 div nc" using r by blast
  then have "length_frames buffer = nat \<lfloor>real (length data) / 2 / real nc\<rfloor>"
    by (simp only: floor_half_frames)
  moreover have "length data = 5 \<and> nc = 1 \<longrightarrow> length_frames buffer = 2"
    using r by auto
  ultimately show "\<exists>buffer. decodeAudioData data ctx rate nc = Inr buffer \<and>
         length_frames buffer = nat \<lfloor>real (length data) / 2 / real nc\<rfloor> \<and>
         numberOfChannels buffer = nc \<and>
         (length data = 5 \<and> nc = 1 \<longrightarrow> length_frames buffer = 2)"
    using b r by blast
next
  assume "length data div 2 < nc"
  then show "decodeAudioData data ctx rate nc = Inl NotSupportedError"
    by (intro decodeAudioData_rejects) simp
qed

theorem decodeAudioData_frameCount_witness:
  "supports standard_context 1 24000 \<and> 1 dvd length [1, 0, 255, 255, 9 :: u8] div 2 \<and>
   0 < length [1, 0, 255, 255, 9 :: u8] div 2 \<and>
   (\<exists>buffer. decodeAudioData [1, 0, 255, 255, 9] standard_context 24000 1 = Inr buffer \<and>
      length_frames buffer = 2) \<and>
   length [7 :: u8] div 2 < 1 \<and>
   decodeAudioData [7] standard_context 24000 1 = Inl NotSupportedError"
proof -
  have h: "supports standard_context 1 24000 \<and> 1 dvd length [1, 0, 255, 255, 9 :: u8] div 2 \<and>
      0 < length [1, 0, 255, 255, 9 :: u8] div 2"
    by (simp add: supports_def standard_context_def)
  have z: "length [7 :: u8] div 2 < 1" by simp
  from decodeAudioData_frameCount [where data = "[1, 0, 255, 255, 9]" and ctx = standard_context
      and rate = 24000 and nc = 1, THEN conjunct1] h
  have a: "\<exists>buffer. decodeAudioData [1, 0, 255, 255, 9] standard_context 24000 1 = Inr buffer \<and>
      length_frames buffer = 2"
    by auto
  from decodeAudioData_frameCount [where data = "[7]" and ctx = standard_context
      and rate = 24000 and nc = 1, THEN conjunct2] z
  have b: "decodeAudioData [7] standard_context 24000 1 = Inl NotSupportedError"
    by blast
  show ?thesis using h z a b by (intro conjI) blast+
qed

text \<open>
  Claim C4 as stated fails on each of these inputs, where it promises 1, 0, 1 and 1
  frames.  Six bytes on two channels: the source computes
  \<open>frameCount = 6 / 2 / 2 = 1.5\<close> without rounding, so the loop of channel 1 runs for
  \<open>i = 1\<close> and \<^verbatim>\<open>getInt16(6)\<close> throws RangeError on the 6-byte view (for every partial
  frame: \<open>partial_frame_rejected\<close>).  One byte on one channel, at the sample rate the
  repository uses: the odd byte is dropped and \<^verbatim>\<open>createBuffer\<close> throws for the length 0.
  Sixty-six bytes on 33 channels, and two bytes at the sample rate 0: \<^verbatim>\<open>createBuffer\<close>
  throws for a channel count or sample rate outside its limits.
\<close>

theorem decodeAudioData_partial_frame_counterexample:
  "decodeAudioData [1, 0, 2, 0, 3, 0] standard_context 24000 2 = Inl RangeError \<and>
   decodeAudioData [7] standard_context 24000 1 = Inl NotSupportedError \<and>
   decodeAudioData (replicate 66 0) standard_context 24000 33 = Inl NotSupportedError \<and>
   decodeAudioData [1, 0] standard_context 0 1 = Inl NotSupportedError"
proof -
  have a: "decodeAudioData [1, 0, 2, 0, 3, 0] standard_context 24000 2 = Inl RangeError"
    by (simp add: decodeAudioData_def createBuffer_def standard_context_def
        decode_channels.simps decode_frames.simps getInt16_def Let_def)
  have b: "decodeAudioData [7] standard_context 24000 1 = Inl NotSupportedError"
    by (simp add: decodeAudioData_def createBuffer_def standard_context_def)
  have c: "decodeAudioData (replicate 66 0) standard_context 24000 33 = Inl NotSupportedError"
    by (simp add: decodeAudioData_def createBuffer_def standard_context_def)
  have d: "decodeAudioData [1, 0] standard_context 0 1 = Inl NotSupportedError"
    by (simp add: decodeAudioData_def createBuffer_def standard_context_def)
  show ?thesis using a b c d by (intro conjI)
qed

text \<open>
  Claim C1, as amended.  For every buffer of a context (at least one frame and one
  channel, each channel holding \<open>length\<close> samples, channel count and sample rate among
  those the context supports) and every sample \<open>s\<close> of it in \<open>[-1, 1]\<close>: encoding the
  buffer and decoding the bytes after the 44-byte header, with the same sample rate and
  channel count, gives a buffer of the same shape whose sample at the same place differs
  from \<open>s\<close> by less than two quantization steps, \<open>2/32768\<close>.  The sample 1.0 comes back
  strictly between \<open>1 - 1/32767\<close> and 1, the sample -1.0 comes back as -1.0.
\<close>

theorem wav_roundtrip:
  assumes fr: "0 < length_frames b" and ch: "0 < numberOfChannels b"
    and sup: "supports ctx (numberOfChannels b) (sampleRate b)"
    and wf: "\<forall>arr\<in>set (channelData b). length arr = length_frames b"
    and c: "c < numberOfChannels b" and i: "i < length_frames b"
    and s: "channelData b ! c ! i = Fin s" and lo: "- 1 \<le> s" and hi: "s \<le> 1"
  shows "\<exists>out b' d. bufferToWav b = Inr out \<and>
     decodeAudioData (drop 44 out) ctx (sampleRate b) (numberOfChannels b) = Inr b' \<and>
     length_frames b' = length_frames b \<and> numberOfChannels b' = numberOfChannels b \<and>
     sampleRate b' = sampleRate b \<and>
     channelData b' ! c ! i = Fin d \<and> \<bar>d - s\<bar> < 2 / 32768 \<and>
     (s = 1 \<longrightarrow> d < 1 \<and> 1 - 1 / 32767 < d) \<and> (s = - 1 \<longrightarrow> d = - 1)"
proof -
  let ?nc = "numberOfChannels b" and ?F = "length_frames b"
  let ?p = "pcm_payload b"
  have dr: "drop 44 (wav_header b @ ?p) = ?p" by simp
  have half: "length ?p div 2 = ?F * ?nc" by simp
  have "\<exists>b'. decodeAudioData ?p ctx (sampleRate b) ?nc = Inr b'"
    using ch fr by (intro decodeAudioData_ok sup) (simp_all add: half)
  then obtain b' where b': "decodeAudioData ?p ctx (sampleRate b) ?nc = Inr b'" by blast
  note r = decodeAudioData_Inr [OF b']
  have F: "length_frames b' = ?F" using r ch by (simp add: half)
  have "channelData b' ! c ! i = decoded ?p ?nc c i" using r c i F by simp
  also have "\<dots> = Fin (real_of_int (convert_sample (typed_get (channelData b ! c) i)) / 32768)"
    unfolding decoded_def pcm_payload_def using int16_at_payload [OF c i] by simp
  also have "typed_get (channelData b ! c) i = Fin s"
    using wf c i s by (simp add: typed_get_def numberOfChannels_def)
  finally have d: "channelData b' ! c ! i = Fin (real_of_int (convert_sample (Fin s)) / 32768)" .
  have e: "\<bar>real_of_int (convert_sample (Fin s)) / 32768 - s\<bar> < 2 / 32768"
    using lo hi by (rule convert_sample_error)
  have one: "convert_sample (Fin 1) = 32767" and mone: "convert_sample (Fin (- 1)) = - 32768"
    by (simp_all add: convert_sample_Fin)
  have sp: "(s = 1 \<longrightarrow> real_of_int (convert_sample (Fin s)) / 32768 < 1 \<and>
        1 - 1 / 32767 < real_of_int (convert_sample (Fin s)) / 32768) \<and>
      (s = - 1 \<longrightarrow> real_of_int (convert_sample (Fin s)) / 32768 = - 1)"
    using one mone by auto
  have enc: "bufferToWav b = Inr (wav_header b @ ?p)" by (rule bufferToWav_bytes)
  have dec: "decodeAudioData (drop 44 (wav_header b @ ?p)) ctx (sampleRate b) ?nc = Inr b'"
    by (simp only: dr b')
  have same: "numberOfChannels b' = ?nc" "sampleRate b' = sampleRate b" using r by blast+
  show ?thesis using enc dec F same d e sp by blast
qed

theorem wav_roundtrip_witness:
  "0 < length_frames extremes \<and> 0 < numberOfChannels extremes \<and>
   supports standard_context (numberOfChannels extremes) (sampleRate extremes) \<and>
   list_all (\<lambda>arr. length arr = length_frames extremes) (channelData extremes) \<and>
   channelData extremes ! 0 ! 0 = Fin 1 \<and>
   (\<exists>out b' d. bufferToWav extremes = Inr out \<and>
      decodeAudioData (drop 44 out) standard_context (sampleRate extremes)
        (numberOfChannels extremes) = Inr b' \<and>
      channelData b' ! 0 ! 0 = Fin d \<and> \<bar>d - 1\<bar> < 2 / 32768 \<and> d < 1 \<and> 1 - 1 / 32767 < d)"
proof -
  have h: "0 < length_frames extremes" "0 < numberOfChannels extremes"
    "supports standard_context (numberOfChannels extremes) (sampleRate extremes)"
    "\<forall>arr\<in>set (channelData extremes). length arr = length_frames extremes"
    "0 < numberOfChannels extremes" "0 < length_frames extremes"
    "channelData extremes ! 0 ! 0 = Fin 1" "- 1 \<le> (1::real)" "(1::real) \<le> 1"
    by (simp_all add: extremes_def numberOfChannels_def supports_def standard_context_def)
  from wav_roundtrip [OF h] h show ?thesis by (auto simp: list_all_iff)
qed

text \<open>
  Claim C1 as stated (within one step, \<open>1/32768\<close>) fails at the sample \<open>65535/65536\<close>:
  \<open>65535/65536 * 32767 = 32766.5...\<close> is written as 32766 and read back as
  \<open>32766/32768 = 16383/16384\<close>, one and a half steps below the original.
\<close>

theorem wav_roundtrip_counterexample:
  "channelData near_one = [[Fin (65535 / 65536)]] \<and>
   bufferToWav near_one = Inr (wav_header near_one @ [254, 127]) \<and>
   decodeAudioData (drop 44 (wav_header near_one @ [254, 127])) standard_context 24000 1 =
     Inr \<lparr>sampleRate = 24000, length_frames = 1, channelData = [[Fin (16383 / 16384)]]\<rparr> \<and>
   \<bar>16383 / 16384 - 65535 / 65536\<bar> > (1 / 32768 :: real)"
proof -
  have c: "convert_sample (Fin (65535 / 65536)) = 32766"
    by (simp add: convert_sample_def clamp_sample_def scale_sample_def ToInt32_def)
  have sb: "sample_bytes 32766 = [254, 127]"
    by (simp add: sample_bytes_def numeral_2_eq_2)
  have p: "pcm_payload near_one = [254, 127]"
    by (simp add: pcm_payload_def payload_bytes_def frame_bytes_def near_one_def
        numberOfChannels_def typed_get_def c sb)
  have d: "decodeAudioData [254, 127] standard_context 24000 1 =
     Inr \<lparr>sampleRate = 24000, length_frames = 1, channelData = [[Fin (16383 / 16384)]]\<rparr>"
    by (simp add: decodeAudioData_def createBuffer_def standard_context_def
        decode_channels.simps decode_frames.simps getInt16_def Let_def)
  have e: "bufferToWav near_one = Inr (wav_header near_one @ [254, 127])"
    using bufferToWav_bytes [of near_one] by (simp only: p)
  have dr: "drop 44 (wav_header near_one @ [254, 127]) = [254, 127]" by simp
  have dd: "decodeAudioData (drop 44 (wav_header near_one @ [254, 127])) standard_context 24000 1 =
     Inr \<lparr>sampleRate = 24000, length_frames = 1, channelData = [[Fin (16383 / 16384)]]\<rparr>"
    by (simp only: dr d)
  have cd: "channelData near_one = [[Fin (65535 / 65536)]]" by (simp add: near_one_def)
  have ar: "\<bar>16383 / 16384 - 65535 / 65536\<bar> > (1 / 32768 :: real)" by simp
  show ?thesis using cd e dd ar by (intro conjI)
qed

section \<open>Claims about the playback controller\<close>

text \<open>
  Claim C6.  A play call that reads the device clock as \<open>t0\<close>, with an offset into the
  buffer (\<open>0 \<le> offset\<close>; \<^verbatim>\<open>start\<close> rejects a negative one), in any state the player can
  reach, sets the anchor to \<open>t0 - offset\<close>.  While the run is playing, that is as long as
  the position \<open>t - anchor\<close> is within the buffer's duration (the guard of the update
  loop), every run of the position-update loop, the first at \<open>t1\<close> inside the play call
  and the later ones at the times \<open>ts\<close>, keeps the anchor and publishes the position
  \<open>t - anchor\<close>.  With offset 2 the update at \<open>t0 + 1\<close> publishes 3.
\<close>

theorem playAudio_anchor:
  "0 \<le> offset \<longrightarrow>
   startTimeRef (playAudio (run initial evs) ident buffer offset t0 t1) = t0 - offset \<and>
   ((\<forall>t\<in>set (t1 # ts). t - (t0 - offset) \<le> duration buffer) \<longrightarrow>
      startTimeRef (ticks (playAudio (run initial evs) ident buffer offset t0 t1) ts) = t0 - offset \<and>
      currentTime (ticks (playAudio (run initial evs) ident buffer offset t0 t1) ts) =
        last (t1 # ts) - (t0 - offset) \<and>
      (offset = 2 \<and> ts = [t0 + 1] \<longrightarrow>
         currentTime (ticks (playAudio (run initial evs) ident buffer offset t0 t1) ts) = 3))"
proof
  assume o: "0 \<le> offset"
  let ?st = "run initial evs"
  let ?st' = "playAudio ?st ident buffer offset t0 t1"
  have i: "inv ?st" by (rule run_inv [OF inv_initial])
  have a: "startTimeRef ?st' = t0 - offset" using o by simp
  have b: "startTimeRef (ticks ?st' ts) = t0 - offset \<and>
      currentTime (ticks ?st' ts) = last (t1 # ts) - (t0 - offset)"
    if h: "\<forall>t\<in>set (t1 # ts). t - (t0 - offset) \<le> duration buffer"
  proof -
    from h have off: "t1 - (t0 - offset) \<le> duration buffer" by simp
    have p: "pendingFrames ?st' = [(animationFrameRef ?st', ident, buffer)]"
      using playAudio_pending [OF i, of ident buffer offset t0 t1] off o by simp
    have c: "currentTime ?st' = t1 - (t0 - offset)" using off o by simp
    have r: "\<forall>t\<in>set ts. t - (t0 - offset) \<le> duration buffer" using h by simp
    from ticks_anchor [OF a p r] c show ?thesis by (cases "ts = []") simp_all
  qed
  have c: "currentTime (ticks ?st' ts) = 3"
    if "\<forall>t\<in>set (t1 # ts). t - (t0 - offset) \<le> duration buffer" "offset = 2 \<and> ts = [t0 + 1]"
    using b [OF that(1)] that(2) by simp
  show "startTimeRef ?st' = t0 - offset \<and>
   ((\<forall>t\<in>set (t1 # ts). t - (t0 - offset) \<le> duration buffer) \<longrightarrow>
      startTimeRef (ticks ?st' ts) = t0 - offset \<and>
      currentTime (ticks ?st' ts) = last (t1 # ts) - (t0 - offset) \<and>
      (offset = 2 \<and> ts = [t0 + 1] \<longrightarrow> currentTime (ticks ?st' ts) = 3))"
    using a b c by blast
qed

theorem playAudio_anchor_witness:
  "(0::real) \<le> 2 \<and>
   (10::real) - (10 - 2) \<le> duration five_seconds \<and> (10 + 1) - (10 - 2) \<le> duration five_seconds \<and>
   startTimeRef (playAudio (run initial []) ''a'' five_seconds 2 10 10) = 10 - 2 \<and>
   currentTime (ticks (playAudio (run initial []) ''a'' five_seconds 2 10 10) [10 + 1]) = 3"
proof -
  have h: "\<forall>t\<in>set [10, 10 + 1]. t - (10 - 2) \<le> duration five_seconds" by simp
  from playAudio_anchor [where evs = "[]" and ident = "''a''" and buffer = five_seconds
      and offset = 2 and ?t0.0 = 10 and ?t1.0 = 10 and ts = "[10 + 1]"] h
  have "startTimeRef (playAudio (run initial []) ''a'' five_seconds 2 10 10) = 10 - 2 \<and>
    currentTime (ticks (playAudio (run initial []) ''a'' five_seconds 2 10 10) [10 + 1]) = 3"
    by simp
  then show ?thesis by simp
qed

text \<open>
  Claim C7.  The completion callback computes \<open>elapsed = now - startTimeRef\<close>.  If
  \<open>elapsed \<ge> duration - 0.1\<close> it sets the published position and the paused offset to 0
  and \<^verbatim>\<open>isPlaying\<close> to false; otherwise (a stop short of the end) it changes nothing.
\<close>

theorem onended_natural_completion:
  "(now - startTimeRef st \<ge> duration buffer - 1 / 10 \<longrightarrow>
      onended st buffer now = st\<lparr>isPlaying := False, currentTime := 0, pausedAtRef := 0\<rparr>) \<and>
   (now - startTimeRef st < duration buffer - 1 / 10 \<longrightarrow> onended st buffer now = st)"
  using onended_cases [where st = st and buffer = buffer and now = now] by blast

theorem onended_natural_completion_witness:
  "12 - startTimeRef play_example \<ge> duration two_seconds - 1 / 10 \<and>
   isPlaying play_example \<and>
   onended play_example two_seconds 12 =
     play_example\<lparr>isPlaying := False, currentTime := 0, pausedAtRef := 0\<rparr> \<and>
   11 - startTimeRef pause_example < duration two_seconds - 1 / 10 \<and>
   currentTime pause_example = 1 / 2 \<and> pausedAtRef pause_example = 1 \<and>
   onended pause_example two_seconds 11 = pause_example"
proof -
  have a: "startTimeRef play_example = 10" "isPlaying play_example"
    by (simp_all add: play_example_def)
  have b: "startTimeRef pause_example = 10" "currentTime pause_example = 1 / 2"
    "pausedAtRef pause_example = 1"
    unfolding pause_example_def play_example_frame using a by simp_all
  from onended_natural_completion [where now = 12 and st = play_example and buffer = two_seconds]
    onended_natural_completion [where now = 11 and st = pause_example and buffer = two_seconds] a b
  show ?thesis by simp
qed

text \<open>
  Claim C8.  A play call for another track stops and disconnects the source held
  before, cancels its update loop and resets the paused offset before the new source
  starts, and no two sources are ever active together (\<open>playAudio_single_source\<close>).
  Position reporting does not stay with the new track, though.  \<^verbatim>\<open>stop()\<close> makes the old
  source fire \<^verbatim>\<open>ended\<close>, and its \<^verbatim>\<open>onended\<close> callback, which is meant to act on a natural
  end only, compares the old buffer's duration with the time elapsed since the anchor
  in \<^verbatim>\<open>startTimeRef\<close>, by then the anchor of the new track.  In \<open>switch_example\<close> the
  track \<open>b\<close> is the one active source and its position 0.01 is published, when the
  callback of the stopped clip \<open>a\<close> sets the published position to 0 and \<^verbatim>\<open>isPlaying\<close> to
  false.
\<close>

theorem onended_after_switch:
  "currentlyPlayingId (run initial switch_example) = Some ''b'' \<and>
   sourceNodeRef (run initial switch_example) = Some 1 \<and>
   active (nodes (run initial switch_example) ! 1) \<and>
   node_track (nodes (run initial switch_example) ! 1) = ''b'' \<and>
   \<not> active (nodes (run initial switch_example) ! 0) \<and>
   isPlaying (run initial (butlast switch_example)) \<and>
   currentTime (run initial (butlast switch_example)) = 1 / 100 \<and>
   \<not> isPlaying (run initial switch_example) \<and>
   currentTime (run initial switch_example) = 0"
  using switch_example_states by (intro conjI)

text \<open>
  Claim C9.  Every seek comes from the slider, whose value the browser keeps within
  \<open>[0, duration]\<close>: for every position \<open>v\<close> asked for, in any state the player can reach,
  the value handed to \<^verbatim>\<open>handleSeek\<close> lies in \<open>[0, duration]\<close>; it is 0 for \<open>v \<le> 0\<close> and
  the last step of the slider's grid up to the duration (less than 0.01 below it) for
  \<open>v \<ge> duration\<close>.  That value becomes the paused offset and the published position,
  and no error is raised.  (When the seek restarts a playing track, the restarted run
  may publish the value plus the time the device clock advanced between the two clock
  readings of the restart, still within \<open>[0, duration]\<close>.)
\<close>

theorem onChange_clamps:
  "0 \<le> slider_value (run initial evs) v \<and>
   slider_value (run initial evs) v \<le> durationState (run initial evs) \<and>
   (v \<le> 0 \<longrightarrow> slider_value (run initial evs) v = 0) \<and>
   (durationState (run initial evs) \<le> v \<longrightarrow>
      slider_value (run initial evs) v =
        real_of_int \<lfloor>durationState (run initial evs) * 100\<rfloor> / 100 \<and>
      durationState (run initial evs) - 1 / 100 < slider_value (run initial evs) v) \<and>
   pausedAtRef (onChange (run initial evs) v startAt now) = slider_value (run initial evs) v \<and>
   (currentTime (onChange (run initial evs) v startAt now) = slider_value (run initial evs) v \<or>
    isPlaying (run initial evs) \<and>
    currentTime (onChange (run initial evs) v startAt now) =
      slider_value (run initial evs) v + (now - startAt)) \<and>
   (startAt \<le> now \<longrightarrow>
      0 \<le> currentTime (onChange (run initial evs) v startAt now) \<and>
      currentTime (onChange (run initial evs) v startAt now) \<le> durationState (run initial evs)) \<and>
   (\<not> isPlaying (run initial evs) \<or> now = startAt \<longrightarrow>
      currentTime (onChange (run initial evs) v startAt now) = slider_value (run initial evs) v) \<and>
   uncaught (onChange (run initial evs) v startAt now) = uncaught (run initial evs)"
proof -
  let ?st = "run initial evs"
  have i: "duration_inv ?st" by (rule run_duration_inv [OF duration_inv_initial])
  then have d: "0 \<le> durationState ?st" by (simp add: duration_inv_def)
  note b = slider_value_bounds [OF d, of v]
  have l: "v \<le> 0 \<longrightarrow> slider_value ?st v = 0" using slider_value_low [OF d] by blast
  have h: "durationState ?st \<le> v \<longrightarrow>
      slider_value ?st v = real_of_int \<lfloor>durationState ?st * 100\<rfloor> / 100 \<and>
      durationState ?st - 1 / 100 < slider_value ?st v"
    using slider_value_high [OF d] slider_value_near [OF d] by blast
  note f = onChange_fields [OF i, where v = v and startAt = startAt and now = now]
  show ?thesis using b l h f by blast
qed

theorem onChange_clamps_witness:
  "durationState (run initial paused_events) = 2 \<and> \<not> isPlaying (run initial paused_events) \<and>
   (2::real) \<le> 5 \<and> (12::real) \<le> 12 \<and>
   slider_value (run initial paused_events) 5 = 2 \<and>
   pausedAtRef (onChange (run initial paused_events) 5 12 12) = 2 \<and>
   currentTime (onChange (run initial paused_events) 5 12 12) = 2 \<and>
   uncaught (onChange (run initial paused_events) 5 12 12) = [] \<and>
   (- 3::real) \<le> 0 \<and>
   pausedAtRef (onChange (run initial paused_events) (- 3) 12 12) = 0 \<and>
   currentTime (onChange (run initial paused_events) (- 3) 12 12) = 0"
proof -
  let ?st = "run initial paused_events"
  have p: "durationState ?st = 2" "\<not> isPlaying ?st" "uncaught ?st = []"
    unfolding run_paused_events by (simp_all add: pause_example_fields)
  note hi = onChange_clamps [where evs = paused_events and v = 5 and startAt = 12 and now = 12]
  note lo = onChange_clamps [where evs = paused_events and v = "- 3" and startAt = 12 and now = 12]
  have h1: "slider_value ?st 5 = 2" using hi p(1) by simp
  have h2: "pausedAtRef (onChange ?st 5 12 12) = 2" using hi h1 by simp
  have h3: "currentTime (onChange ?st 5 12 12) = 2" using hi h1 p(2) by simp
  have h4: "uncaught (onChange ?st 5 12 12) = []" using hi p(3) by simp
  have l1: "slider_value ?st (- 3) = 0" using lo by simp
  have l2: "pausedAtRef (onChange ?st (- 3) 12 12) = 0" using lo l1 by simp
  have l3: "currentTime (onChange ?st (- 3) 12 12) = 0" using lo l1 p(2) by simp
  show ?thesis using p h1 h2 h3 h4 l2 l3 by simp
qed

end
